theory Spec2Isabelle
  imports Complex_Main
begin

section \<open>Numbers and errors\<close>

text \<open>
  The platformer computes with Python numbers. Integers are unbounded and are modelled as
  \<^typ>\<open>int\<close>. Floating-point values are modelled as \<^typ>\<open>real\<close>: arithmetic is exact, and
  neither rounding error nor the special values (infinities, NaN) are represented. The
  conversions between the two kinds of number are written out below.
\<close>

datatype error = IndexError | ValueError | RuntimeError | ZeroDivisionError

definition and_then :: "error + 'a \<Rightarrow> ('a \<Rightarrow> error + 'b) \<Rightarrow> error + 'b" where
  \<comment> \<open>sequencing of two computations that may raise\<close>
  "and_then r f = (case r of Inl e \<Rightarrow> Inl e | Inr v \<Rightarrow> f v)"

definition or_else :: "error + bool \<Rightarrow> error + bool \<Rightarrow> error + bool" where
  \<comment> \<open>Python's short-circuit \<open>a or b\<close> on booleans\<close>
  "or_else a b = (case a of Inl e \<Rightarrow> Inl e | Inr t \<Rightarrow> if t then Inr True else b)"

definition py_int :: "real \<Rightarrow> int" where
  \<comment> \<open>\<open>int(r)\<close> on a float: truncation towards zero\<close>
  "py_int r = (if 0 \<le> r then \<lfloor>r\<rfloor> else \<lceil>r\<rceil>)"

definition py_round :: "real \<Rightarrow> int" where
  \<comment> \<open>\<open>round(r)\<close> with one argument: nearest integer, ties to the even neighbour\<close>
  "py_round r =
     (let f = \<lfloor>r\<rfloor>; d = r - of_int f
      in if d < 1 / 2 then f
         else if 1 / 2 < d then f + 1
         else if even f then f else f + 1)"

definition py_range :: "int \<Rightarrow> int \<Rightarrow> int list" where
  \<comment> \<open>\<open>range(a, b)\<close>\<close>
  "py_range a b = [a..b - 1]"

definition py_index :: "'a list \<Rightarrow> int \<Rightarrow> error + 'a" where
  \<comment> \<open>\<open>xs[i]\<close>: a negative index counts from the end, anything else out of range raises\<close>
  "py_index xs i =
     (if 0 \<le> i \<and> i < int (length xs) then Inr (xs ! nat i)
      else if i < 0 \<and> 0 \<le> int (length xs) + i then Inr (xs ! nat (int (length xs) + i))
      else Inl IndexError)"

section \<open>Vectors\<close>

text \<open>Class \<open>Point2d\<close> (also used under the name \<open>Vector2d\<close>); its fields \<open>x\<close> and \<open>y\<close>.\<close>

record Point2d =
  p_x :: real
  p_y :: real

definition Vector2d :: "real \<Rightarrow> real \<Rightarrow> Point2d" where
  "Vector2d a b = \<lparr>p_x = a, p_y = b\<rparr>"

definition point_sub :: "Point2d \<Rightarrow> Point2d \<Rightarrow> Point2d" where
  "point_sub a b = \<lparr>p_x = p_x a - p_x b, p_y = p_y a - p_y b\<rparr>"

definition point_add :: "Point2d \<Rightarrow> Point2d \<Rightarrow> Point2d" where
  "point_add a b = \<lparr>p_x = p_x a + p_x b, p_y = p_y a + p_y b\<rparr>"

definition point_mul :: "Point2d \<Rightarrow> real \<Rightarrow> Point2d" where
  "point_mul a scalar = \<lparr>p_x = p_x a * scalar, p_y = p_y a * scalar\<rparr>"

definition point_len :: "Point2d \<Rightarrow> real" where
  "point_len a = sqrt (p_x a * p_x a + p_y a * p_y a)"

section \<open>Inputs, lap time, player\<close>

datatype Input = NONE | LEFT | RIGHT | JUMP | RESTART | QUIT

text \<open>Class \<open>Time\<close>; its fields \<open>begin\<close>, \<open>finish\<close> and \<open>best\<close>.\<close>

record Time =
  t_begin :: int
  t_finish :: int
  t_best :: int

text \<open>Class \<open>Player\<close>, without its texture.\<close>

record Player =
  pos :: Point2d
  vel :: Point2d
  time :: Time

definition restart :: "Player \<Rightarrow> Player" where
  "restart pl =
     pl\<lparr>pos := \<lparr>p_x = 170, p_y = 500\<rparr>,
        vel := Vector2d 0 0,
        time := (time pl)\<lparr>t_begin := -1, t_finish := -1\<rparr>\<rparr>"

datatype Collision = X | Y | CORNER

definition TILE_SIZE :: Point2d where
  "TILE_SIZE = \<lparr>p_x = 64, p_y = 64\<rparr>"

definition PLAYER_SIZE :: Point2d where
  "PLAYER_SIZE = \<lparr>p_x = 64, p_y = 64\<rparr>"

definition AIR :: int where "AIR = 0"
definition START :: int where "START = 78"
definition FINISH :: int where "FINISH = 110"

section \<open>The tile grid\<close>

text \<open>Class \<open>Map\<close>, without its texture.\<close>

record Map =
  tiles :: "int list"
  width :: int
  height :: int

subsection \<open>Loading\<close>

text \<open>
  The constructor reads the lines of the map file, splits each one at single spaces, skips
  the empty words and converts the others with \<open>int\<close>. The lines (as \<open>readlines\<close> returns
  them) are the input of the model, and the conversion of one word is the parameter
  \<open>to_int\<close>, which answers \<open>None\<close> where \<open>int\<close> raises \<open>ValueError\<close>.
\<close>

fun split_sp :: "string \<Rightarrow> string list" where
  \<comment> \<open>\<open>line.split(' ')\<close>\<close>
  "split_sp [] = [[]]"
| "split_sp (c # cs) =
     (if c = CHR '' '' then [] # split_sp cs
      else (case split_sp cs of w # ws \<Rightarrow> (c # w) # ws | [] \<Rightarrow> [[c]]))"

fun load_words :: "(string \<Rightarrow> int option) \<Rightarrow> string list \<Rightarrow> error + int list" where
  \<comment> \<open>the inner loop: the values that one line appends\<close>
  "load_words to_int [] = Inr []"
| "load_words to_int (word # ws) =
     (if word = [] then load_words to_int ws
      else (case to_int word of
              None \<Rightarrow> Inl ValueError
            | Some v \<Rightarrow> and_then (load_words to_int ws) (\<lambda>vs. Inr (v # vs))))"

fun load_lines :: "(string \<Rightarrow> int option) \<Rightarrow> string list \<Rightarrow> Map \<Rightarrow> error + Map" where
  \<comment> \<open>the outer loop over the lines\<close>
  "load_lines to_int [] m = Inr m"
| "load_lines to_int (line # ls) m =
     and_then (load_words to_int (split_sp line)) (\<lambda>vs.
       if width m > 0 \<and> width m \<noteq> int (length vs) then Inl RuntimeError
       else load_lines to_int ls
              (m\<lparr>tiles := tiles m @ vs, width := int (length vs), height := height m + 1\<rparr>))"

definition load :: "(string \<Rightarrow> int option) \<Rightarrow> string list \<Rightarrow> error + Map" where
  "load to_int ls = load_lines to_int ls \<lparr>tiles = [], width = 0, height = 0\<rparr>"

subsection \<open>Queries\<close>

definition get_tile_int :: "Map \<Rightarrow> int \<Rightarrow> int \<Rightarrow> error + int" where
  \<comment> \<open>the private \<open>__get_tile\<close>\<close>
  "get_tile_int m a b =
     (let nx = min (max (py_int (of_int a / p_x TILE_SIZE)) 0) (width m - 1);
          ny = min (max (py_int (of_int b / p_y TILE_SIZE)) 0) (height m - 1);
          i = ny * width m + nx
      in py_index (tiles m) i)"

definition get_tile :: "Map \<Rightarrow> Point2d \<Rightarrow> error + int" where
  "get_tile m p = get_tile_int m (py_round (p_x p)) (py_round (p_y p))"

definition is_solid_int :: "Map \<Rightarrow> int \<Rightarrow> int \<Rightarrow> error + bool" where
  \<comment> \<open>the private \<open>__is_solid\<close>\<close>
  "is_solid_int m a b = and_then (get_tile_int m a b) (\<lambda>t. Inr (t \<notin> {AIR, START, FINISH}))"

definition is_solid :: "Map \<Rightarrow> Point2d \<Rightarrow> error + bool" where
  "is_solid m p = is_solid_int m (py_round (p_x p)) (py_round (p_y p))"

definition on_ground :: "Map \<Rightarrow> Point2d \<Rightarrow> Point2d \<Rightarrow> error + bool" where
  "on_ground m p size0 =
     (let sz = point_mul size0 0.5
      in or_else (is_solid m \<lparr>p_x = p_x p - p_x sz, p_y = p_y p + p_y sz + 1\<rparr>)
                 (is_solid m \<lparr>p_x = p_x p + p_x sz, p_y = p_y p + p_y sz + 1\<rparr>))"

definition test_box :: "Map \<Rightarrow> Point2d \<Rightarrow> Point2d \<Rightarrow> error + bool" where
  "test_box m p size0 =
     (let sz = point_mul size0 0.5
      in or_else (is_solid m \<lparr>p_x = p_x p - p_x sz, p_y = p_y p - p_y sz\<rparr>)
        (or_else (is_solid m \<lparr>p_x = p_x p + p_x sz, p_y = p_y p - p_y sz\<rparr>)
        (or_else (is_solid m \<lparr>p_x = p_x p - p_x sz, p_y = p_y p + p_y sz\<rparr>)
                 (is_solid m \<lparr>p_x = p_x p + p_x sz, p_y = p_y p + p_y sz\<rparr>))))"

section \<open>The collision resolver\<close>

text \<open>
  The loop of \<open>move_box\<close> carries the set of recorded collisions, the position and the
  velocity. \<open>move_step\<close> is one pass through its body, \<open>move_loop\<close> the passes for the
  values of the loop variable, which the body does not read.
\<close>

type_synonym move_state = "Collision set \<times> Point2d \<times> Point2d"

definition move_step :: "Map \<Rightarrow> Point2d \<Rightarrow> real \<Rightarrow> move_state \<Rightarrow> error + move_state" where
  "move_step m size0 fraction st =
     (case st of (result, p, v) \<Rightarrow>
        let new_pos = point_add p (point_mul v fraction)
        in and_then (test_box m new_pos size0) (\<lambda>blocked.
             if blocked then
               and_then (test_box m \<lparr>p_x = p_x p, p_y = p_y new_pos\<rparr> size0) (\<lambda>hit_y.
                 let (result1, new_pos1, v1, hit1) =
                       (if hit_y
                        then (insert Y result, new_pos\<lparr>p_y := p_y p\<rparr>, v\<lparr>p_y := 0\<rparr>, True)
                        else (result, new_pos, v, False))
                 in and_then (test_box m \<lparr>p_x = p_x new_pos1, p_y = p_y p\<rparr> size0) (\<lambda>hit_x.
                      let (result2, new_pos2, v2, hit2) =
                            (if hit_x
                             then (insert X result1, new_pos1\<lparr>p_x := p_x p\<rparr>, v1\<lparr>p_x := 0\<rparr>, True)
                             else (result1, new_pos1, v1, hit1))
                      in if \<not> hit2 then Inr (insert CORNER result2, p, Vector2d 0 0)
                         else Inr (result2, new_pos2, v2)))
             else Inr (result, new_pos, v)))"

fun move_loop :: "Map \<Rightarrow> Point2d \<Rightarrow> real \<Rightarrow> int list \<Rightarrow> move_state \<Rightarrow> error + move_state" where
  "move_loop m size0 fraction [] st = Inr st"
| "move_loop m size0 fraction (i # ks) st =
     and_then (move_step m size0 fraction st) (move_loop m size0 fraction ks)"

definition move_box :: "Map \<Rightarrow> Point2d \<Rightarrow> Point2d \<Rightarrow> Point2d \<Rightarrow> error + move_state" where
  "move_box m p v size0 =
     (let distance = point_len v;
          maximum = py_int distance;
          result = {}
      in if distance < 0 then Inr (result, p, v)
         else if maximum + 1 = 0 then Inl ZeroDivisionError
         else let fraction = 1 / of_int (maximum + 1)
              in move_loop m size0 fraction (py_range 0 (maximum + 1)) (result, p, v))"

section \<open>The game tick\<close>

text \<open>Class \<open>Game\<close>: the held inputs, the player and the map.\<close>

record Game =
  inputs :: "Input \<Rightarrow> bool"
  player :: Player
  tile_map :: Map

definition physics :: "Game \<Rightarrow> error + Game" where
  "physics g =
     (let pl = (if inputs g RESTART then restart (player g) else player g)
      in and_then (on_ground (tile_map g) (pos pl) PLAYER_SIZE) (\<lambda>ground.
           let vy0 = (if inputs g JUMP \<and> ground then -21 else p_y (vel pl));
               direction = (if inputs g RIGHT then 1 else 0) - (if inputs g LEFT then 1 else (0::real));
               vy = vy0 + 0.75;
               vx0 = (if ground then 0.5 * p_x (vel pl) + 4.0 * direction
                      else 0.95 * p_x (vel pl) + 2.0 * direction);
               vx = min (max vx0 (-8)) 8
           in and_then (move_box (tile_map g) (pos pl) \<lparr>p_x = vx, p_y = vy\<rparr> PLAYER_SIZE)
                (\<lambda>(collisions, p', v'). Inr (g\<lparr>player := pl\<lparr>pos := p', vel := v'\<rparr>\<rparr>))))"

definition logic :: "Game \<Rightarrow> int \<Rightarrow> error + Game" where
  "logic g tick =
     (let player_time = time (player g)
      in and_then (get_tile (tile_map g) (pos (player g))) (\<lambda>player_tile.
           if player_tile = START then
             Inr (g\<lparr>player := (player g)\<lparr>time := player_time\<lparr>t_begin := tick\<rparr>\<rparr>\<rparr>)
           else if player_tile = FINISH then
             (if t_begin player_time \<ge> 0 then
                let t1 = player_time\<lparr>t_finish := tick - t_begin player_time\<rparr>;
                    t2 = t1\<lparr>t_begin := -1\<rparr>;
                    t3 = (if t_best t2 < 0 \<or> t_finish t2 < t_best t2
                          then t2\<lparr>t_best := t_finish t2\<rparr> else t2)
                in Inr (g\<lparr>player := (player g)\<lparr>time := t3\<rparr>\<rparr>)
              else Inr g)
           else Inr g))"

section \<open>Auxiliary notions for the statements\<close>

definition cell :: "int \<Rightarrow> int \<Rightarrow> int" where
  \<comment> \<open>the index along one axis that \<open>__get_tile\<close> computes from an integer coordinate,
      for an axis of \<open>n\<close> cells\<close>
  "cell n a = min (max (a div 64) 0) (n - 1)"

text \<open>Maps and games for the concrete instances.\<close>

definition lap_map :: Map where
  "lap_map = \<lparr>tiles = [78, 110, 0], width = 3, height = 1\<rparr>"

definition lap_game :: "real \<Rightarrow> int \<Rightarrow> int \<Rightarrow> Game" where
  "lap_game a b c =
     \<lparr>inputs = (\<lambda>i. False),
      player = \<lparr>pos = \<lparr>p_x = a, p_y = 32\<rparr>, vel = \<lparr>p_x = 0, p_y = 0\<rparr>,
                time = \<lparr>t_begin = b, t_finish = -1, t_best = c\<rparr>\<rparr>,
      tile_map = lap_map\<rparr>"

definition resolved :: "bool \<Rightarrow> bool \<Rightarrow> real \<Rightarrow> move_state \<Rightarrow> move_state" where
  \<comment> \<open>the state after a blocked pass whose Y-only and X-only probes answered
      \<open>hit_y\<close> and \<open>hit_x\<close>\<close>
  "resolved hit_y hit_x fraction st =
     (case st of (result, p, v) \<Rightarrow>
        if \<not> hit_y \<and> \<not> hit_x then (insert CORNER result, p, \<lparr>p_x = 0, p_y = 0\<rparr>)
        else ((if hit_x then insert X else id) ((if hit_y then insert Y else id) result),
              \<lparr>p_x = (if hit_x then p_x p else p_x p + p_x v * fraction),
               p_y = (if hit_y then p_y p else p_y p + p_y v * fraction)\<rparr>,
              \<lparr>p_x = (if hit_x then 0 else p_x v), p_y = (if hit_y then 0 else p_y v)\<rparr>))"

definition zeroed :: "move_state \<Rightarrow> bool" where
  \<comment> \<open>the velocity is 0 along every axis recorded as hit\<close>
  "zeroed st =
     (case st of (result, p, v) \<Rightarrow> (X \<in> result \<longrightarrow> p_x v = 0) \<and> (Y \<in> result \<longrightarrow> p_y v = 0))"

definition nook_map :: Map where
  "nook_map = \<lparr>tiles = [0, 1, 1, 1], width = 2, height = 2\<rparr>"

definition corner_map :: Map where
  "corner_map = \<lparr>tiles = [0, 0, 0, 0, 0, 0, 0, 0, 1], width = 3, height = 3\<rparr>"

definition air_map :: Map where
  "air_map = \<lparr>tiles = [0], width = 1, height = 1\<rparr>"

definition air_game :: "real \<Rightarrow> Game" where
  "air_game vy =
     \<lparr>inputs = (\<lambda>i. False),
      player = \<lparr>pos = \<lparr>p_x = 0, p_y = 0\<rparr>, vel = \<lparr>p_x = 0, p_y = vy\<rparr>,
                time = \<lparr>t_begin = -1, t_finish = -1, t_best = -1\<rparr>\<rparr>,
      tile_map = air_map\<rparr>"

definition wf_map :: "Map \<Rightarrow> bool" where
  \<comment> \<open>a grid with at least one cell whose tiles fill its rows\<close>
  "wf_map m = (1 \<le> width m \<and> 1 \<le> height m \<and> int (length (tiles m)) = width m * height m)"

definition tile_of :: "Map \<Rightarrow> int \<Rightarrow> int \<Rightarrow> int" where
  \<comment> \<open>the tile stored for column \<open>c\<close> of row \<open>r\<close>\<close>
  "tile_of m c r = tiles m ! nat (r * width m + c)"



definition words_of :: "string \<Rightarrow> string list" where
  \<comment> \<open>the words of a line that the loader converts\<close>
  "words_of line = filter (\<lambda>word. word \<noteq> []) (split_sp line)"

definition to_int_dec :: "string \<Rightarrow> int option" where
  \<comment> \<open>\<open>int\<close> on a word of decimal digits, with or without the line's final newline\<close>
  "to_int_dec word =
     (let ds = takeWhile (\<lambda>ch. ch \<noteq> CHR 0x0A) word
      in if ds \<noteq> [] \<and> (\<forall>ch \<in> set ds. ch \<in> set ''0123456789'')
         then Some (foldl (\<lambda>a ch. 10 * a + (of_char ch - 48)) 0 ds)
         else None)"

definition sample_lines :: "string list" where
  "sample_lines = [[CHR ''0'', CHR '' '', CHR ''5'', CHR 0x0A], ''78  110'']"

definition row_at :: "Map \<Rightarrow> real \<Rightarrow> int" where
  \<comment> \<open>the grid row from which the queries answer the world coordinate \<open>b\<close>\<close>
  "row_at m b = cell (height m) (py_round b)"

definition single_solid_row :: "Map \<Rightarrow> int \<Rightarrow> bool" where
  \<comment> \<open>row \<open>r0\<close> is solid in every column, and no other tile is solid\<close>
  "single_solid_row m r0 =
     (wf_map m \<and> r0 \<in> set [0..height m - 1] \<and>
      (\<forall>r \<in> set [0..height m - 1]. \<forall>c \<in> set [0..width m - 1].
         (tile_of m c r \<notin> {AIR, START, FINISH}) = (r = r0)))"

definition above_row :: "Map \<Rightarrow> int \<Rightarrow> real \<Rightarrow> real \<Rightarrow> move_state \<Rightarrow> bool" where
  \<comment> \<open>one pass moves by less than a unit along Y, and the point at Y offset \<open>off\<close> from the
      position is answered from a row before \<open>r0\<close>\<close>
  "above_row m r0 fraction off st =
     (case st of (result, p, v) \<Rightarrow> \<bar>p_y v * fraction\<bar> < 1 \<and> row_at m (p_y p + off) < r0)"

definition below_row :: "Map \<Rightarrow> int \<Rightarrow> real \<Rightarrow> real \<Rightarrow> move_state \<Rightarrow> bool" where
  \<comment> \<open>the same, for a row after \<open>r0\<close>\<close>
  "below_row m r0 fraction off st =
     (case st of (result, p, v) \<Rightarrow> \<bar>p_y v * fraction\<bar> < 1 \<and> r0 < row_at m (p_y p + off))"

definition keeps_side :: "Map \<Rightarrow> int \<Rightarrow> Point2d \<Rightarrow> Point2d \<Rightarrow> Point2d \<Rightarrow> bool" where
  \<comment> \<open>each sampled corner height of the box (half the box's height above and below the
      centre) that is answered from a row before \<open>r0\<close> at position \<open>p\<close> is answered from a
      row before \<open>r0\<close> at position \<open>p'\<close>, and likewise for a row after \<open>r0\<close>\<close>
  "keeps_side m r0 size0 p p' =
     ((row_at m (p_y p - p_y size0 * 0.5) < r0 \<longrightarrow> row_at m (p_y p' - p_y size0 * 0.5) < r0) \<and>
      (row_at m (p_y p + p_y size0 * 0.5) < r0 \<longrightarrow> row_at m (p_y p' + p_y size0 * 0.5) < r0) \<and>
      (r0 < row_at m (p_y p - p_y size0 * 0.5) \<longrightarrow> r0 < row_at m (p_y p' - p_y size0 * 0.5)) \<and>
      (r0 < row_at m (p_y p + p_y size0 * 0.5) \<longrightarrow> r0 < row_at m (p_y p' + p_y size0 * 0.5)))"

definition row_map :: Map where
  "row_map = \<lparr>tiles = [0, 5, 0], width = 1, height = 3\<rparr>"

section \<open>Basic facts\<close>

lemma and_then_Inr_iff:
  "and_then r f = Inr b \<longleftrightarrow> (\<exists>a. r = Inr a \<and> f a = Inr b)"
  by (cases r) (simp_all add: and_then_def)

lemma and_then_Inr [simp]: "and_then (Inr a) f = f a"
  by (simp add: and_then_def)

lemma and_then_Inl [simp]: "and_then (Inl e) f = Inl e"
  by (simp add: and_then_def)

lemma or_else_simps [simp]:
  "or_else (Inr True) b = Inr True"
  "or_else (Inr False) b = b"
  "or_else (Inl e) b = Inl e"
  by (simp_all add: or_else_def)

lemma upto_0_0: "[0..0::int] = [0]"
  by (simp add: upto_rec1)

lemma upto_0_1: "[0..1::int] = [0, 1]"
  by (simp add: upto_rec1)

lemma py_round_of_int [simp]: "py_round (of_int k) = k"
  by (simp add: py_round_def)

lemma py_round_half: "py_round (of_int k + 1 / 2) = (if even k then k else k + 1)"
proof -
  have "\<lfloor>of_int k + (1 / 2 :: real)\<rfloor> = k"
    by (rule floor_unique) simp_all
  then show ?thesis
    by (simp add: py_round_def Let_def)
qed

lemma py_round_numeral [simp]: "py_round (numeral n) = numeral n"
  using py_round_of_int[of "numeral n"] by simp

lemma py_int_nonneg: "0 \<le> r \<Longrightarrow> py_int r = \<lfloor>r\<rfloor>"
  by (simp add: py_int_def)

lemma point_len_nonneg: "0 \<le> point_len v"
  by (simp add: point_len_def)

lemma py_int_len_nonneg: "0 \<le> py_int (point_len v)"
  by (simp add: py_int_nonneg point_len_nonneg)

lemma max_py_int_div: "max (py_int (of_int a / 64)) 0 = max (a div 64) 0"
proof (cases "0 \<le> a")
  case True
  then have "py_int (of_int a / 64) = a div 64"
    using floor_divide_of_int_eq[of a 64, where ?'a = real] by (simp add: py_int_def)
  then show ?thesis by simp
next
  case False
  then have neg: "of_int a / (64::real) < 0" by simp
  then have "\<lceil>of_int a / (64::real)\<rceil> \<le> 0" by (simp add: ceiling_le_iff)
  with neg have "py_int (of_int a / 64) \<le> 0" by (simp add: py_int_def)
  moreover from False have "a div 64 < 0" by simp
  ultimately show ?thesis by simp
qed

lemma get_tile_int_cell:
  "get_tile_int m a b = py_index (tiles m) (cell (height m) b * width m + cell (width m) a)"
  by (simp add: get_tile_int_def cell_def TILE_SIZE_def max_py_int_div Let_def)

section \<open>Restart\<close>

text \<open>
  Claim C7. Whatever the player's state, \<open>restart\<close> puts the position at (170, 500), the
  velocity at (0, 0) and the begin and finish fields of the lap time at -1, and keeps the
  best time. A tick of \<open>physics\<close> with RESTART held is the tick of the player so reset.
\<close>

theorem restart_resets:
  "pos (restart pl) = \<lparr>p_x = 170, p_y = 500\<rparr> \<and>
   vel (restart pl) = \<lparr>p_x = 0, p_y = 0\<rparr> \<and>
   t_begin (time (restart pl)) = -1 \<and>
   t_finish (time (restart pl)) = -1 \<and>
   t_best (time (restart pl)) = t_best (time pl) \<and>
   (inputs g RESTART \<longrightarrow> physics g = physics (g\<lparr>player := restart (player g)\<rparr>))"
  by (simp add: restart_def Vector2d_def physics_def)

theorem restart_resets_witness:
  "inputs (lap_game 32 5 7\<lparr>inputs := (\<lambda>i. i = RESTART)\<rparr>) RESTART \<and>
   physics (lap_game 32 5 7\<lparr>inputs := (\<lambda>i. i = RESTART)\<rparr>) =
   physics (lap_game 32 5 7\<lparr>inputs := (\<lambda>i. i = RESTART),
                             player := restart (player (lap_game 32 5 7))\<rparr>)"
  using restart_resets[of "player (lap_game 32 5 7)" "lap_game 32 5 7\<lparr>inputs := (\<lambda>i. i = RESTART)\<rparr>"]
  by simp

section \<open>The lap timer\<close>

text \<open>
  Claim C6. Let \<open>t\<close> be the tile under the player's position. On START the begin field
  becomes the current tick, whatever it was, and the other two fields stay. On FINISH
  with a begin field of at least 0, the finish field becomes the tick minus the begin
  field, the begin field becomes -1, and the best field becomes the new finish value
  exactly when it was negative or larger than that value. On FINISH with a negative begin
  field and on every other tile the lap time is unchanged.
\<close>

theorem logic_lap_timer:
  assumes "get_tile (tile_map g) (pos (player g)) = Inr t"
  shows "\<exists>g'. logic g tick = Inr g' \<and>
     (t = START \<longrightarrow>
        time (player g') = (time (player g))\<lparr>t_begin := tick\<rparr>) \<and>
     (t = FINISH \<and> 0 \<le> t_begin (time (player g)) \<longrightarrow>
        t_finish (time (player g')) = tick - t_begin (time (player g)) \<and>
        t_begin (time (player g')) = -1 \<and>
        t_best (time (player g')) =
          (if t_best (time (player g)) < 0 \<or> tick - t_begin (time (player g)) < t_best (time (player g))
           then tick - t_begin (time (player g)) else t_best (time (player g)))) \<and>
     (t = FINISH \<and> t_begin (time (player g)) < 0 \<longrightarrow> time (player g') = time (player g)) \<and>
     (t \<noteq> START \<and> t \<noteq> FINISH \<longrightarrow> time (player g') = time (player g))"
  using assms by (simp add: logic_def Let_def START_def FINISH_def)

lemma lap_map_tile:
  "get_tile lap_map \<lparr>p_x = 32, p_y = 32\<rparr> = Inr START"
  "get_tile lap_map \<lparr>p_x = 96, p_y = 32\<rparr> = Inr FINISH"
  "get_tile lap_map \<lparr>p_x = 160, p_y = 32\<rparr> = Inr 0"
  by (simp_all add: get_tile_def get_tile_int_cell cell_def lap_map_def py_index_def
      START_def FINISH_def)

theorem logic_lap_timer_witness:
  "get_tile (tile_map (lap_game 32 5 7)) (pos (player (lap_game 32 5 7))) = Inr START \<and>
   (\<exists>g'. logic (lap_game 32 5 7) 100 = Inr g' \<and>
         time (player g') = \<lparr>t_begin = 100, t_finish = -1, t_best = 7\<rparr>) \<and>
   get_tile (tile_map (lap_game 96 100 (-1))) (pos (player (lap_game 96 100 (-1)))) = Inr FINISH \<and>
   (\<exists>g'. logic (lap_game 96 100 (-1)) 350 = Inr g' \<and>
         time (player g') = \<lparr>t_begin = -1, t_finish = 250, t_best = 250\<rparr>)"
proof -
  have a: "get_tile (tile_map (lap_game 32 5 7)) (pos (player (lap_game 32 5 7))) = Inr START"
    by (simp add: lap_game_def lap_map_tile)
  have b: "get_tile (tile_map (lap_game 96 100 (-1))) (pos (player (lap_game 96 100 (-1)))) = Inr FINISH"
    by (simp add: lap_game_def lap_map_tile)
  from logic_lap_timer[OF a, of 100] obtain g1 where
    g1: "logic (lap_game 32 5 7) 100 = Inr g1"
        "time (player g1) = (time (player (lap_game 32 5 7)))\<lparr>t_begin := 100\<rparr>"
    by auto
  from logic_lap_timer[OF b, of 350] obtain g2 where
    g2: "logic (lap_game 96 100 (-1)) 350 = Inr g2"
        "t_finish (time (player g2)) = 350 - t_begin (time (player (lap_game 96 100 (-1))))"
        "t_begin (time (player g2)) = -1"
        "t_best (time (player g2)) =
          (if t_best (time (player (lap_game 96 100 (-1)))) < 0
              \<or> 350 - t_begin (time (player (lap_game 96 100 (-1)))) < t_best (time (player (lap_game 96 100 (-1))))
           then 350 - t_begin (time (player (lap_game 96 100 (-1)))) else t_best (time (player (lap_game 96 100 (-1)))))"
    by (auto simp: lap_game_def)
  have "time (player g1) = \<lparr>t_begin = 100, t_finish = -1, t_best = 7\<rparr>"
    using g1(2) by (simp add: lap_game_def)
  moreover have "time (player g2) = \<lparr>t_begin = -1, t_finish = 250, t_best = 250\<rparr>"
    using g2(2,3,4) by (cases "time (player g2)") (simp add: lap_game_def)
  ultimately show ?thesis using a b g1(1) g2(1) by simp
qed

section \<open>One pass of the resolver's loop\<close>

lemma move_step_free:
  assumes "test_box m (point_add p (point_mul v fraction)) size0 = Inr False"
  shows "move_step m size0 fraction (result, p, v)
           = Inr (result, point_add p (point_mul v fraction), v)"
  using assms by (simp add: move_step_def Let_def)

lemma move_step_blocked:
  assumes "test_box m (point_add p (point_mul v fraction)) size0 = Inr True"
    and "test_box m \<lparr>p_x = p_x p, p_y = p_y p + p_y v * fraction\<rparr> size0 = Inr hit_y"
    and "test_box m \<lparr>p_x = p_x p + p_x v * fraction, p_y = p_y p\<rparr> size0 = Inr hit_x"
  shows "move_step m size0 fraction (result, p, v)
           = Inr (resolved hit_y hit_x fraction (result, p, v))"
  using assms
  by (simp add: move_step_def resolved_def Let_def Vector2d_def point_add_def point_mul_def)

lemma move_step_raises:
  "test_box m (point_add p (point_mul v fraction)) size0 = Inl e \<Longrightarrow>
     move_step m size0 fraction (result, p, v) = Inl e"
  "test_box m (point_add p (point_mul v fraction)) size0 = Inr True \<Longrightarrow>
   test_box m \<lparr>p_x = p_x p, p_y = p_y p + p_y v * fraction\<rparr> size0 = Inl e \<Longrightarrow>
     move_step m size0 fraction (result, p, v) = Inl e"
  "test_box m (point_add p (point_mul v fraction)) size0 = Inr True \<Longrightarrow>
   test_box m \<lparr>p_x = p_x p, p_y = p_y p + p_y v * fraction\<rparr> size0 = Inr hit_y \<Longrightarrow>
   test_box m \<lparr>p_x = p_x p + p_x v * fraction, p_y = p_y p\<rparr> size0 = Inl e \<Longrightarrow>
     move_step m size0 fraction (result, p, v) = Inl e"
  by (simp_all add: move_step_def Let_def point_add_def point_mul_def)

lemma move_step_cases:
  assumes "move_step m size0 fraction (result, p, v) = Inr st'"
  shows "(test_box m (point_add p (point_mul v fraction)) size0 = Inr False \<and>
          st' = (result, point_add p (point_mul v fraction), v)) \<or>
         (\<exists>hit_y hit_x.
            test_box m (point_add p (point_mul v fraction)) size0 = Inr True \<and>
            test_box m \<lparr>p_x = p_x p, p_y = p_y p + p_y v * fraction\<rparr> size0 = Inr hit_y \<and>
            test_box m \<lparr>p_x = p_x p + p_x v * fraction, p_y = p_y p\<rparr> size0 = Inr hit_x \<and>
            st' = resolved hit_y hit_x fraction (result, p, v))"
proof (cases "test_box m (point_add p (point_mul v fraction)) size0")
  case (Inl e)
  from move_step_raises(1)[OF this] assms show ?thesis by simp
next
  case (Inr blocked)
  show ?thesis
  proof (cases blocked)
    case False
    with Inr have free: "test_box m (point_add p (point_mul v fraction)) size0 = Inr False"
      by simp
    from move_step_free[OF free] assms free show ?thesis by simp
  next
    case True
    with Inr have b: "test_box m (point_add p (point_mul v fraction)) size0 = Inr True"
      by simp
    show ?thesis
    proof (cases "test_box m \<lparr>p_x = p_x p, p_y = p_y p + p_y v * fraction\<rparr> size0")
      case (Inl e)
      from move_step_raises(2)[OF b this] assms show ?thesis by simp
    next
      case hy: (Inr hit_y)
      show ?thesis
      proof (cases "test_box m \<lparr>p_x = p_x p + p_x v * fraction, p_y = p_y p\<rparr> size0")
        case (Inl e)
        from move_step_raises(3)[OF b hy this] assms show ?thesis by simp
      next
        case hx: (Inr hit_x)
        from move_step_blocked[OF b hy hx, of result] assms
        have "st' = resolved hit_y hit_x fraction (result, p, v)"
          by simp
        with b hy hx show ?thesis by blast
      qed
    qed
  qed
qed

lemma move_loop_induct:
  assumes run: "move_loop m size0 fraction ks st = Inr st'"
    and init: "P st"
    and step: "\<And>s s'. P s \<Longrightarrow> move_step m size0 fraction s = Inr s' \<Longrightarrow> P s'"
  shows "P st'"
  using run init
proof (induction ks arbitrary: st)
  case Nil
  then show ?case by simp
next
  case (Cons k ks)
  from Cons.prems(1) obtain st1 where s1: "move_step m size0 fraction st = Inr st1"
    and s2: "move_loop m size0 fraction ks st1 = Inr st'"
    by (auto simp: and_then_Inr_iff)
  show ?case
    by (rule Cons.IH[OF s2 step[OF Cons.prems(2) s1]])
qed

lemma move_box_loop:
  "move_box m p v size0 =
     move_loop m size0 (1 / of_int (py_int (point_len v) + 1))
       (py_range 0 (py_int (point_len v) + 1)) ({}, p, v)"
proof -
  have "\<not> point_len v < 0" using point_len_nonneg[of v] by simp
  moreover have "py_int (point_len v) + 1 \<noteq> 0" using py_int_len_nonneg[of v] by simp
  ultimately show ?thesis by (simp add: move_box_def Let_def)
qed

subsection \<open>Evaluation on concrete boxes\<close>

lemma test_box_64:
  "test_box m \<lparr>p_x = a, p_y = b\<rparr> \<lparr>p_x = 64, p_y = 64\<rparr> =
     or_else (is_solid_int m (py_round (a - 32)) (py_round (b - 32)))
    (or_else (is_solid_int m (py_round (a + 32)) (py_round (b - 32)))
    (or_else (is_solid_int m (py_round (a - 32)) (py_round (b + 32)))
             (is_solid_int m (py_round (a + 32)) (py_round (b + 32)))))"
  by (simp add: test_box_def is_solid_def point_mul_def Let_def)

lemma py_round_values:
  "py_round (- (1 / 2)) = 0" "py_round (127 / 2) = 64" "py_round (255 / 2) = 128"
  "py_round (- 1) = - 1"
  using py_round_of_int[of "- 1"] by (simp_all add: py_round_def)

lemmas tile_eval = is_solid_int_def get_tile_int_cell cell_def py_index_def
  AIR_def START_def FINISH_def

lemma floor_sqrt_2: "\<lfloor>sqrt 2\<rfloor> = 1"
proof -
  have "1 \<le> sqrt 2" by simp
  moreover have "sqrt 2 < 2" by (simp add: real_less_lsqrt)
  ultimately show ?thesis by (simp add: floor_unique)
qed

lemma move_box_diagonal:
  "move_box m p \<lparr>p_x = 1, p_y = 1\<rparr> size0 =
     and_then (move_step m size0 (1 / 2) ({}, p, \<lparr>p_x = 1, p_y = 1\<rparr>)) (move_step m size0 (1 / 2))"
proof -
  have "point_len \<lparr>p_x = 1, p_y = 1\<rparr> = sqrt 2" by (simp add: point_len_def)
  then have "py_int (point_len \<lparr>p_x = 1, p_y = 1\<rparr>) = 1"
    by (simp add: py_int_def floor_sqrt_2)
  then show ?thesis
    by (simp add: move_box_loop py_range_def upto_0_1 and_then_def split: sum.splits)
qed

section \<open>Velocity after a recorded hit\<close>

lemma move_step_zeroed:
  assumes "zeroed st" and "move_step m size0 fraction st = Inr st'"
  shows "zeroed st'"
proof -
  obtain result p v where st: "st = (result, p, v)" by (cases st)
  from assms(1) have z: "X \<in> result \<longrightarrow> p_x v = 0" "Y \<in> result \<longrightarrow> p_y v = 0"
    by (simp_all add: st zeroed_def)
  from move_step_cases[OF assms(2)[unfolded st]] show ?thesis
  proof (elim disjE exE conjE)
    assume "st' = (result, point_add p (point_mul v fraction), v)"
    with z show ?thesis by (simp add: zeroed_def)
  next
    fix hit_y hit_x
    assume "st' = resolved hit_y hit_x fraction (result, p, v)"
    with z show ?thesis by (cases hit_y; cases hit_x) (simp_all add: zeroed_def resolved_def)
  qed
qed

text \<open>
  Claim C1. Whenever \<open>move_box\<close> returns, an axis X (respectively Y) in the returned set
  of collisions comes with a returned velocity whose X (respectively Y) component is 0,
  in whichever pass of the loop the hit was recorded.
\<close>

theorem move_box_zeroes_velocity:
  assumes "move_box m p v size0 = Inr (result, p', v')"
  shows "(X \<in> result \<longrightarrow> p_x v' = 0) \<and> (Y \<in> result \<longrightarrow> p_y v' = 0)"
proof -
  have "zeroed ({}, p, v)" by (simp add: zeroed_def)
  with assms[unfolded move_box_loop] have "zeroed (result, p', v')"
    by (rule move_loop_induct) (rule move_step_zeroed)
  then show ?thesis by (simp add: zeroed_def)
qed

lemma nook_tests:
  "test_box nook_map \<lparr>p_x = 63 / 2, p_y = 63 / 2\<rparr> \<lparr>p_x = 64, p_y = 64\<rparr> = Inr True"
  "test_box nook_map \<lparr>p_x = 31, p_y = 63 / 2\<rparr> \<lparr>p_x = 64, p_y = 64\<rparr> = Inr True"
  "test_box nook_map \<lparr>p_x = 63 / 2, p_y = 31\<rparr> \<lparr>p_x = 64, p_y = 64\<rparr> = Inr True"
  "test_box nook_map \<lparr>p_x = 31, p_y = 31\<rparr> \<lparr>p_x = 64, p_y = 64\<rparr> = Inr False"
  by (simp_all add: test_box_64 py_round_values tile_eval nook_map_def)

lemma nook_move_box:
  "move_box nook_map \<lparr>p_x = 31, p_y = 31\<rparr> \<lparr>p_x = 1, p_y = 1\<rparr> \<lparr>p_x = 64, p_y = 64\<rparr>
     = Inr ({X, Y}, \<lparr>p_x = 31, p_y = 31\<rparr>, \<lparr>p_x = 0, p_y = 0\<rparr>)"
proof -
  have s1: "move_step nook_map \<lparr>p_x = 64, p_y = 64\<rparr> (1 / 2)
              ({}, \<lparr>p_x = 31, p_y = 31\<rparr>, \<lparr>p_x = 1, p_y = 1\<rparr>)
            = Inr ({X, Y}, \<lparr>p_x = 31, p_y = 31\<rparr>, \<lparr>p_x = 0, p_y = 0\<rparr>)"
    using move_step_blocked[of nook_map "\<lparr>p_x = 31, p_y = 31\<rparr>" "\<lparr>p_x = 1, p_y = 1\<rparr>" "1 / 2"
        "\<lparr>p_x = 64, p_y = 64\<rparr>" True True "{}"]
    by (simp add: point_add_def point_mul_def nook_tests resolved_def)
  have s2: "move_step nook_map \<lparr>p_x = 64, p_y = 64\<rparr> (1 / 2)
              ({X, Y}, \<lparr>p_x = 31, p_y = 31\<rparr>, \<lparr>p_x = 0, p_y = 0\<rparr>)
            = Inr ({X, Y}, \<lparr>p_x = 31, p_y = 31\<rparr>, \<lparr>p_x = 0, p_y = 0\<rparr>)"
    using move_step_free[of nook_map "\<lparr>p_x = 31, p_y = 31\<rparr>" "\<lparr>p_x = 0, p_y = 0\<rparr>" "1 / 2"
        "\<lparr>p_x = 64, p_y = 64\<rparr>" "{X, Y}"]
    by (simp add: point_add_def point_mul_def nook_tests)
  show ?thesis by (simp add: move_box_diagonal s1 s2)
qed

theorem move_box_zeroes_velocity_witness:
  "move_box nook_map \<lparr>p_x = 31, p_y = 31\<rparr> \<lparr>p_x = 1, p_y = 1\<rparr> \<lparr>p_x = 64, p_y = 64\<rparr>
     = Inr ({X, Y}, \<lparr>p_x = 31, p_y = 31\<rparr>, \<lparr>p_x = 0, p_y = 0\<rparr>) \<and>
   X \<in> {X, Y} \<and> p_x \<lparr>p_x = 0, p_y = 0 :: real\<rparr> = 0 \<and>
   Y \<in> {X, Y} \<and> p_y \<lparr>p_x = 0 :: real, p_y = 0\<rparr> = 0"
  using move_box_zeroes_velocity[OF nook_move_box] nook_move_box by simp

section \<open>The corner case\<close>

lemma corner_tests:
  "test_box corner_map \<lparr>p_x = 191 / 2, p_y = 191 / 2\<rparr> \<lparr>p_x = 64, p_y = 64\<rparr> = Inr True"
  "test_box corner_map \<lparr>p_x = 95, p_y = 191 / 2\<rparr> \<lparr>p_x = 64, p_y = 64\<rparr> = Inr False"
  "test_box corner_map \<lparr>p_x = 191 / 2, p_y = 95\<rparr> \<lparr>p_x = 64, p_y = 64\<rparr> = Inr False"
  "test_box corner_map \<lparr>p_x = 95, p_y = 95\<rparr> \<lparr>p_x = 64, p_y = 64\<rparr> = Inr False"
  by (simp_all add: test_box_64 py_round_values tile_eval corner_map_def)

lemma corner_first_pass:
  "move_step corner_map \<lparr>p_x = 64, p_y = 64\<rparr> (1 / 2)
     ({}, \<lparr>p_x = 95, p_y = 95\<rparr>, \<lparr>p_x = 1, p_y = 1\<rparr>)
   = Inr ({CORNER}, \<lparr>p_x = 95, p_y = 95\<rparr>, \<lparr>p_x = 0, p_y = 0\<rparr>)"
  using move_step_blocked[of corner_map "\<lparr>p_x = 95, p_y = 95\<rparr>" "\<lparr>p_x = 1, p_y = 1\<rparr>" "1 / 2"
      "\<lparr>p_x = 64, p_y = 64\<rparr>" False False "{}"]
  by (simp add: point_add_def point_mul_def corner_tests resolved_def)

lemma corner_second_pass:
  "move_step corner_map \<lparr>p_x = 64, p_y = 64\<rparr> (1 / 2)
     ({CORNER}, \<lparr>p_x = 95, p_y = 95\<rparr>, \<lparr>p_x = 0, p_y = 0\<rparr>)
   = Inr ({CORNER}, \<lparr>p_x = 95, p_y = 95\<rparr>, \<lparr>p_x = 0, p_y = 0\<rparr>)"
  using move_step_free[of corner_map "\<lparr>p_x = 95, p_y = 95\<rparr>" "\<lparr>p_x = 0, p_y = 0\<rparr>" "1 / 2"
      "\<lparr>p_x = 64, p_y = 64\<rparr>" "{CORNER}"]
  by (simp add: point_add_def point_mul_def corner_tests)

text \<open>
  Claim C2. A pass whose combined candidate position overlaps solid while neither the
  Y-only probe (X kept) nor the X-only probe (Y kept) overlaps records CORNER, keeps the
  position and sets the velocity to (0, 0). There is an input for which \<open>move_box\<close>
  returns exactly the set holding CORNER, the position it was given and the velocity
  (0, 0): a box at (95, 95) of size 64 moving by (1, 1) towards the only solid tile of a
  three by three map, which lies diagonally ahead of it.
\<close>

theorem move_box_corner:
  "(test_box m (point_add p (point_mul v fraction)) size0 = Inr True \<and>
    test_box m \<lparr>p_x = p_x p, p_y = p_y (point_add p (point_mul v fraction))\<rparr> size0 = Inr False \<and>
    test_box m \<lparr>p_x = p_x (point_add p (point_mul v fraction)), p_y = p_y p\<rparr> size0 = Inr False
    \<longrightarrow> move_step m size0 fraction (result, p, v)
          = Inr (insert CORNER result, p, \<lparr>p_x = 0, p_y = 0\<rparr>)) \<and>
   move_box corner_map \<lparr>p_x = 95, p_y = 95\<rparr> \<lparr>p_x = 1, p_y = 1\<rparr> \<lparr>p_x = 64, p_y = 64\<rparr>
     = Inr ({CORNER}, \<lparr>p_x = 95, p_y = 95\<rparr>, \<lparr>p_x = 0, p_y = 0\<rparr>)"
proof (intro conjI impI)
  assume "test_box m (point_add p (point_mul v fraction)) size0 = Inr True \<and>
    test_box m \<lparr>p_x = p_x p, p_y = p_y (point_add p (point_mul v fraction))\<rparr> size0 = Inr False \<and>
    test_box m \<lparr>p_x = p_x (point_add p (point_mul v fraction)), p_y = p_y p\<rparr> size0 = Inr False"
  then have "move_step m size0 fraction (result, p, v)
      = Inr (resolved False False fraction (result, p, v))"
    by (intro move_step_blocked) (simp_all add: point_add_def point_mul_def)
  then show "move_step m size0 fraction (result, p, v)
      = Inr (insert CORNER result, p, \<lparr>p_x = 0, p_y = 0\<rparr>)"
    by (simp add: resolved_def)
next
  show "move_box corner_map \<lparr>p_x = 95, p_y = 95\<rparr> \<lparr>p_x = 1, p_y = 1\<rparr> \<lparr>p_x = 64, p_y = 64\<rparr>
     = Inr ({CORNER}, \<lparr>p_x = 95, p_y = 95\<rparr>, \<lparr>p_x = 0, p_y = 0\<rparr>)"
    by (simp add: move_box_diagonal corner_first_pass corner_second_pass)
qed

theorem move_box_corner_witness:
  "test_box corner_map (point_add \<lparr>p_x = 95, p_y = 95\<rparr> (point_mul \<lparr>p_x = 1, p_y = 1\<rparr> (1 / 2)))
     \<lparr>p_x = 64, p_y = 64\<rparr> = Inr True \<and>
   test_box corner_map \<lparr>p_x = 95, p_y = 191 / 2\<rparr> \<lparr>p_x = 64, p_y = 64\<rparr> = Inr False \<and>
   test_box corner_map \<lparr>p_x = 191 / 2, p_y = 95\<rparr> \<lparr>p_x = 64, p_y = 64\<rparr> = Inr False \<and>
   move_step corner_map \<lparr>p_x = 64, p_y = 64\<rparr> (1 / 2)
     ({}, \<lparr>p_x = 95, p_y = 95\<rparr>, \<lparr>p_x = 1, p_y = 1\<rparr>)
   = Inr ({CORNER}, \<lparr>p_x = 95, p_y = 95\<rparr>, \<lparr>p_x = 0, p_y = 0\<rparr>)"
  using move_box_corner[of corner_map "\<lparr>p_x = 95, p_y = 95\<rparr>" "\<lparr>p_x = 1, p_y = 1\<rparr>" "1 / 2"
      "\<lparr>p_x = 64, p_y = 64\<rparr>" "{}"]
  by (simp add: point_add_def point_mul_def corner_tests)

section \<open>The number of passes\<close>

lemma funpow_raised:
  fixes f :: "'a \<Rightarrow> error + 'a"
  shows "((\<lambda>r. and_then r f) ^^ n) (Inl e) = Inl e"
  by (induction n) simp_all

lemma move_loop_funpow:
  "move_loop m size0 fraction ks st
     = ((\<lambda>r. and_then r (move_step m size0 fraction)) ^^ length ks) (Inr st)"
proof (induction ks arbitrary: st)
  case Nil
  show ?case by simp
next
  case (Cons k ks)
  have unroll: "((\<lambda>r. and_then r (move_step m size0 fraction)) ^^ length (k # ks)) (Inr st)
      = ((\<lambda>r. and_then r (move_step m size0 fraction)) ^^ length ks)
          (move_step m size0 fraction st)"
    by (simp add: funpow_Suc_right del: funpow.simps)
  show ?case
  proof (cases "move_step m size0 fraction st")
    case (Inl e)
    then show ?thesis unfolding unroll by (simp add: funpow_raised)
  next
    case (Inr st1)
    then show ?thesis unfolding unroll by (simp add: Cons.IH)
  qed
qed

lemma length_py_range: "0 \<le> k \<Longrightarrow> length (py_range 0 (k + 1)) = nat k + 1"
  by (simp add: py_range_def)

text \<open>
  Claim C3. The magnitude \<open>d\<close> of a velocity is never negative, and \<open>int\<close> truncates it
  to its floor. \<open>move_box\<close> is then exactly \<open>floor d + 1\<close> passes of the loop body, one
  after the other (an exception ends the run), all with the fraction
  \<open>1 / (floor d + 1)\<close>. Each pass tests the position displaced by the current velocity
  times that fraction, and moves there when the test finds it free.
\<close>

theorem move_box_sub_steps:
  "0 \<le> point_len v \<and>
   py_int (point_len v) = \<lfloor>point_len v\<rfloor> \<and>
   move_box m p v size0
     = ((\<lambda>r. and_then r (move_step m size0 (1 / (of_int \<lfloor>point_len v\<rfloor> + 1))))
          ^^ (nat \<lfloor>point_len v\<rfloor> + 1)) (Inr ({}, p, v)) \<and>
   (test_box m (point_add q (point_mul w fraction)) size0 = Inr False \<longrightarrow>
      move_step m size0 fraction (result, q, w)
        = Inr (result, point_add q (point_mul w fraction), w)) \<and>
   (test_box m (point_add q (point_mul w fraction)) size0 = Inl e \<longrightarrow>
      move_step m size0 fraction (result, q, w) = Inl e)"
proof -
  have n: "0 \<le> py_int (point_len v)" by (rule py_int_len_nonneg)
  have fl: "py_int (point_len v) = \<lfloor>point_len v\<rfloor>"
    by (simp add: py_int_nonneg point_len_nonneg)
  have "move_box m p v size0
     = ((\<lambda>r. and_then r (move_step m size0 (1 / of_int (py_int (point_len v) + 1))))
          ^^ (nat (py_int (point_len v)) + 1)) (Inr ({}, p, v))"
    unfolding move_box_loop move_loop_funpow length_py_range[OF n] ..
  then show ?thesis
    using fl by (simp add: point_len_nonneg move_step_free move_step_raises(1))
qed

theorem move_box_sub_steps_witness:
  "test_box corner_map (point_add \<lparr>p_x = 95, p_y = 95\<rparr> (point_mul \<lparr>p_x = 0, p_y = 0\<rparr> (1 / 2)))
     \<lparr>p_x = 64, p_y = 64\<rparr> = Inr False \<and>
   move_step corner_map \<lparr>p_x = 64, p_y = 64\<rparr> (1 / 2)
     ({CORNER}, \<lparr>p_x = 95, p_y = 95\<rparr>, \<lparr>p_x = 0, p_y = 0\<rparr>)
   = Inr ({CORNER}, \<lparr>p_x = 95, p_y = 95\<rparr>, \<lparr>p_x = 0, p_y = 0\<rparr>) \<and>
   \<lfloor>point_len \<lparr>p_x = 1, p_y = 1\<rparr>\<rfloor> = 1 \<and>
   move_box corner_map \<lparr>p_x = 95, p_y = 95\<rparr> \<lparr>p_x = 1, p_y = 1\<rparr> \<lparr>p_x = 64, p_y = 64\<rparr>
     = ((\<lambda>r. and_then r (move_step corner_map \<lparr>p_x = 64, p_y = 64\<rparr> (1 / 2))) ^^ 2)
         (Inr ({}, \<lparr>p_x = 95, p_y = 95\<rparr>, \<lparr>p_x = 1, p_y = 1\<rparr>))"
proof -
  have fl: "\<lfloor>point_len \<lparr>p_x = 1, p_y = 1\<rparr>\<rfloor> = 1"
    by (simp add: point_len_def floor_sqrt_2)
  have t: "test_box corner_map (point_add \<lparr>p_x = 95, p_y = 95\<rparr> (point_mul \<lparr>p_x = 0, p_y = 0\<rparr> (1 / 2)))
     \<lparr>p_x = 64, p_y = 64\<rparr> = Inr False"
    by (simp add: point_add_def point_mul_def corner_tests)
  have two: "nat 1 + 1 = (2::nat)" by simp
  from move_box_sub_steps[of "\<lparr>p_x = 1, p_y = 1\<rparr>" corner_map "\<lparr>p_x = 95, p_y = 95\<rparr>"
      "\<lparr>p_x = 64, p_y = 64\<rparr>" "\<lparr>p_x = 95, p_y = 95\<rparr>" "\<lparr>p_x = 0, p_y = 0\<rparr>" "1 / 2" "{CORNER}"]
  show ?thesis
    unfolding fl two using t by (simp add: point_add_def point_mul_def)
qed

section \<open>The horizontal speed clamp\<close>

lemma move_step_vel_x:
  assumes "p_x (snd (snd st)) = a \<or> p_x (snd (snd st)) = 0"
    and "move_step m size0 fraction st = Inr st'"
  shows "p_x (snd (snd st')) = a \<or> p_x (snd (snd st')) = 0"
proof -
  obtain result p v where st: "st = (result, p, v)" by (cases st)
  from assms(1) have a: "p_x v = a \<or> p_x v = 0" by (simp add: st)
  from move_step_cases[OF assms(2)[unfolded st]] show ?thesis
  proof (elim disjE exE conjE)
    assume "st' = (result, point_add p (point_mul v fraction), v)"
    with a show ?thesis by simp
  next
    fix hit_y hit_x
    assume "st' = resolved hit_y hit_x fraction (result, p, v)"
    with a show ?thesis by (cases hit_y; cases hit_x) (simp_all add: resolved_def)
  qed
qed

lemma move_box_vel_x:
  assumes "move_box m p v size0 = Inr (result, p', v')"
  shows "p_x v' = p_x v \<or> p_x v' = 0"
proof -
  have "p_x (snd (snd ({} :: Collision set, p, v))) = p_x v \<or> p_x (snd (snd ({} :: Collision set, p, v))) = 0"
    by simp
  with assms[unfolded move_box_loop]
  have "p_x (snd (snd (result, p', v'))) = p_x v \<or> p_x (snd (snd (result, p', v'))) = 0"
    by (rule move_loop_induct) (rule move_step_vel_x)
  then show ?thesis by simp
qed

lemma physics_unfold:
  "physics g =
     and_then (on_ground (tile_map g)
                 (pos (if inputs g RESTART then restart (player g) else player g)) PLAYER_SIZE)
       (\<lambda>ground.
          and_then
            (move_box (tile_map g)
               (pos (if inputs g RESTART then restart (player g) else player g))
               \<lparr>p_x = min (max (if ground
                                 then 0.5 * p_x (vel (if inputs g RESTART then restart (player g) else player g))
                                      + 4.0 * ((if inputs g RIGHT then 1 else 0) - (if inputs g LEFT then 1 else 0))
                                 else 0.95 * p_x (vel (if inputs g RESTART then restart (player g) else player g))
                                      + 2.0 * ((if inputs g RIGHT then 1 else 0) - (if inputs g LEFT then 1 else 0)))
                           (- 8)) 8,
                p_y = (if inputs g JUMP \<and> ground then - 21
                       else p_y (vel (if inputs g RESTART then restart (player g) else player g))) + 0.75\<rparr>
               PLAYER_SIZE)
            (\<lambda>(collisions, p', v').
               Inr (g\<lparr>player := (if inputs g RESTART then restart (player g) else player g)
                                   \<lparr>pos := p', vel := v'\<rparr>\<rparr>)))"
  by (simp only: physics_def Let_def)

lemma and_thenE:
  assumes "and_then r f = Inr b"
  obtains a where "r = Inr a" and "f a = Inr b"
  using assms by (auto simp: and_then_Inr_iff)

lemma move_box_clamped:
  assumes "move_box m p \<lparr>p_x = min (max a (- 8)) 8, p_y = b\<rparr> size0 = Inr res"
  shows "- 8 \<le> p_x (snd (snd res)) \<and> p_x (snd (snd res)) \<le> 8"
proof -
  obtain result p' v' where res: "res = (result, p', v')" by (cases res)
  from move_box_vel_x[OF assms[unfolded res]]
  have "p_x v' = min (max a (- 8)) 8 \<or> p_x v' = 0" by simp
  then have "- 8 \<le> p_x v' \<and> p_x v' \<le> 8" by auto
  then show ?thesis by (simp add: res)
qed

lemma physics_vel_x:
  assumes "physics g = Inr g'"
  shows "- 8 \<le> p_x (vel (player g')) \<and> p_x (vel (player g')) \<le> 8"
  using assms unfolding physics_unfold
  apply (elim and_thenE)
  apply (drule move_box_clamped)
  apply (clarsimp split: prod.splits)
  done

subsection \<open>Free fall on a map without solid tiles\<close>

lemma air_test_box: "test_box air_map p size0 = Inr False"
  by (simp add: test_box_def is_solid_def tile_eval air_map_def Let_def)

lemma air_on_ground: "on_ground air_map p size0 = Inr False"
  by (simp add: on_ground_def is_solid_def tile_eval air_map_def Let_def)

lemma air_move_loop:
  "\<exists>p'. move_loop air_map size0 fraction ks (result, p, v) = Inr (result, p', v)"
proof (induction ks arbitrary: p)
  case Nil
  show ?case by simp
next
  case (Cons k ks)
  from Cons.IH[of "point_add p (point_mul v fraction)"] show ?case
    by (simp add: move_step_free[OF air_test_box])
qed

lemma air_physics:
  "\<exists>p'. physics (air_game vy)
     = Inr ((air_game vy)\<lparr>player := (player (air_game vy))\<lparr>pos := p', vel := \<lparr>p_x = 0, p_y = vy + 0.75\<rparr>\<rparr>\<rparr>)"
proof -
  from air_move_loop obtain p' where
    "move_box air_map \<lparr>p_x = 0, p_y = 0\<rparr> \<lparr>p_x = 0, p_y = vy + 0.75\<rparr> PLAYER_SIZE
       = Inr ({}, p', \<lparr>p_x = 0, p_y = vy + 0.75\<rparr>)"
    unfolding move_box_loop by blast
  then have "physics (air_game vy)
     = Inr ((air_game vy)\<lparr>player := (player (air_game vy))\<lparr>pos := p', vel := \<lparr>p_x = 0, p_y = vy + 0.75\<rparr>\<rparr>\<rparr>)"
    by (simp add: physics_def air_game_def air_on_ground)
  then show ?thesis ..
qed

text \<open>
  Claim C5. After a tick of \<open>physics\<close> that returns, whatever the held inputs and the
  state before, the X component of the player's velocity lies between -8 and 8. The Y
  component has no such bound: for every number there is a tick that ends with a Y
  component above it, and one that ends with a Y component below it.
\<close>

theorem physics_clamps_velocity_x:
  "(physics g = Inr g' \<longrightarrow> - 8 \<le> p_x (vel (player g')) \<and> p_x (vel (player g')) \<le> 8) \<and>
   (\<exists>g0 g1. physics g0 = Inr g1 \<and> bound < p_y (vel (player g1))) \<and>
   (\<exists>g0 g1. physics g0 = Inr g1 \<and> p_y (vel (player g1)) < bound)"
proof (intro conjI impI)
  assume "physics g = Inr g'"
  then show "- 8 \<le> p_x (vel (player g'))" "p_x (vel (player g')) \<le> 8"
    by (simp_all add: physics_vel_x)
next
  from air_physics[of bound] obtain p' where
    "physics (air_game bound)
     = Inr ((air_game bound)\<lparr>player := (player (air_game bound))\<lparr>pos := p', vel := \<lparr>p_x = 0, p_y = bound + 0.75\<rparr>\<rparr>\<rparr>)"
    by blast
  moreover have "bound < p_y (vel (player ((air_game bound)\<lparr>player := (player (air_game bound))\<lparr>pos := p', vel := \<lparr>p_x = 0, p_y = bound + 0.75\<rparr>\<rparr>\<rparr>)))"
    by simp
  ultimately show "\<exists>g0 g1. physics g0 = Inr g1 \<and> bound < p_y (vel (player g1))" by blast
next
  from air_physics[of "bound - 1"] obtain p' where
    "physics (air_game (bound - 1))
     = Inr ((air_game (bound - 1))\<lparr>player := (player (air_game (bound - 1)))\<lparr>pos := p', vel := \<lparr>p_x = 0, p_y = bound - 1 + 0.75\<rparr>\<rparr>\<rparr>)"
    by blast
  moreover have "p_y (vel (player ((air_game (bound - 1))\<lparr>player := (player (air_game (bound - 1)))\<lparr>pos := p', vel := \<lparr>p_x = 0, p_y = bound - 1 + 0.75\<rparr>\<rparr>\<rparr>))) < bound"
    by simp
  ultimately show "\<exists>g0 g1. physics g0 = Inr g1 \<and> p_y (vel (player g1)) < bound" by blast
qed

lemma move_box_at_rest:
  "move_box m p \<lparr>p_x = 0, p_y = 0\<rparr> size0 = move_step m size0 1 ({}, p, \<lparr>p_x = 0, p_y = 0\<rparr>)"
proof -
  have "py_int (point_len \<lparr>p_x = 0, p_y = 0\<rparr>) = 0"
    by (simp add: point_len_def py_int_def)
  then show ?thesis
    by (simp add: move_box_loop py_range_def upto_0_0 and_then_def split: sum.splits)
qed

lemma air_physics_rest: "physics (air_game (- 3 / 4)) = Inr (air_game 0)"
proof -
  have "move_box air_map \<lparr>p_x = 0, p_y = 0\<rparr> \<lparr>p_x = 0, p_y = 0\<rparr> PLAYER_SIZE
      = Inr ({}, \<lparr>p_x = 0, p_y = 0\<rparr>, \<lparr>p_x = 0, p_y = 0\<rparr>)"
    unfolding move_box_at_rest
    using move_step_free[where m = air_map and p = "\<lparr>p_x = 0, p_y = 0\<rparr>"
        and v = "\<lparr>p_x = 0, p_y = 0\<rparr>" and fraction = 1 and ?size0.0 = PLAYER_SIZE
        and result = "{}", OF air_test_box]
    by (simp add: point_add_def point_mul_def)
  then show ?thesis
    by (simp add: physics_def air_game_def air_on_ground)
qed

theorem physics_clamps_velocity_x_witness:
  "physics (air_game (- 3 / 4)) = Inr (air_game 0) \<and>
   - 8 \<le> p_x (vel (player (air_game 0))) \<and> p_x (vel (player (air_game 0))) \<le> 8"
  using physics_clamps_velocity_x[of "air_game (- 3 / 4)" "air_game 0"] air_physics_rest
  by simp

section \<open>Grid indices\<close>

lemma py_round_bounds: "x - 1 / 2 \<le> of_int (py_round x)" "of_int (py_round x) \<le> x + 1 / 2"
proof -
  define f where "f = \<lfloor>x\<rfloor>"
  have f: "of_int f \<le> x" "x < of_int f + 1"
    unfolding f_def by linarith+
  have r: "py_round x = (if x - of_int f < 1 / 2 then f
                         else if 1 / 2 < x - of_int f then f + 1
                         else if even f then f else f + 1)"
    by (simp only: py_round_def Let_def f_def)
  from f show "x - 1 / 2 \<le> of_int (py_round x)"
    unfolding r by (simp split: if_splits)
  from f show "of_int (py_round x) \<le> x + 1 / 2"
    unfolding r by (simp split: if_splits)
qed




lemma cell_range: "1 \<le> n \<Longrightarrow> 0 \<le> cell n a \<and> cell n a < n"
  by (simp add: cell_def min_def max_def)



lemma cell_inside: "0 \<le> c \<Longrightarrow> c < n \<Longrightarrow> c * 64 \<le> a \<Longrightarrow> a < c * 64 + 64 \<Longrightarrow> cell n a = c"
proof -
  assume c: "0 \<le> c" "c < n" and a: "c * 64 \<le> a" "a < c * 64 + 64"
  from a have "a div 64 = c"
    by (intro int_div_pos_eq[where r = "a - 64 * c"]) simp_all
  with c show ?thesis by (simp add: cell_def min_def max_def)
qed

lemma index_in_range:
  assumes "wf_map m" "0 \<le> c" "c < width m" "0 \<le> r" "r < height m"
  shows "0 \<le> r * width m + c \<and> r * width m + c < int (length (tiles m))"
proof -
  from assms have w: "0 \<le> width m" by simp
  from assms have "r + 1 \<le> height m" by simp
  then have "(r + 1) * width m \<le> height m * width m"
    using w by (rule mult_right_mono)
  then have "r * width m + width m \<le> width m * height m"
    by (simp add: algebra_simps)
  moreover from assms(4) w have "0 \<le> r * width m" by simp
  ultimately show ?thesis using assms by (simp add: wf_map_def)
qed

lemma get_tile_int_wf:
  assumes "wf_map m"
  shows "get_tile_int m a b = Inr (tile_of m (cell (width m) a) (cell (height m) b))"
proof -
  from assms have "1 \<le> width m" "1 \<le> height m" by (simp_all add: wf_map_def)
  with cell_range[of "width m" a] cell_range[of "height m" b]
  have "0 \<le> cell (width m) a" "cell (width m) a < width m"
       "0 \<le> cell (height m) b" "cell (height m) b < height m" by simp_all
  from index_in_range[OF assms this] show ?thesis
    by (simp add: get_tile_int_cell py_index_def tile_of_def)
qed

lemma get_tile_wf:
  "wf_map m \<Longrightarrow> get_tile m p
     = Inr (tile_of m (cell (width m) (py_round (p_x p))) (cell (height m) (py_round (p_y p))))"
  by (simp add: get_tile_def get_tile_int_wf)

lemma is_solid_wf:
  "wf_map m \<Longrightarrow> is_solid m p
     = Inr (tile_of m (cell (width m) (py_round (p_x p))) (cell (height m) (py_round (p_y p)))
              \<notin> {AIR, START, FINISH})"
  by (simp add: is_solid_def is_solid_int_def get_tile_int_wf)


section \<open>Clamping of the tile queries\<close>



section \<open>Rounding before the division\<close>




section \<open>Loading a rectangular grid\<close>

lemma load_words_values:
  assumes "\<forall>word \<in> set ws. word \<noteq> [] \<longrightarrow> to_int word \<noteq> None"
  shows "load_words to_int ws
           = Inr (map (\<lambda>word. the (to_int word)) (filter (\<lambda>word. word \<noteq> []) ws))"
  using assms by (induction ws) auto

lemma load_line_values:
  assumes "\<forall>word \<in> set (words_of line). to_int word \<noteq> None"
  shows "load_words to_int (split_sp line)
           = Inr (map (\<lambda>word. the (to_int word)) (words_of line))"
  using assms by (simp add: words_of_def load_words_values)

lemma load_lines_rect:
  assumes "\<forall>line \<in> set ls. length (words_of line) = n"
    and "\<forall>line \<in> set ls. \<forall>word \<in> set (words_of line). to_int word \<noteq> None"
    and "width m = 0 \<or> width m = int n"
  shows "load_lines to_int ls m
           = Inr (m\<lparr>tiles := tiles m @ concat (map (\<lambda>line. map (\<lambda>word. the (to_int word)) (words_of line)) ls),
                   width := (if ls = [] then width m else int n),
                   height := height m + int (length ls)\<rparr>)"
  using assms
proof (induction ls arbitrary: m)
  case Nil
  show ?case by simp
next
  case (Cons line ls)
  let ?vs = "map (\<lambda>word. the (to_int word)) (words_of line)"
  let ?m1 = "m\<lparr>tiles := tiles m @ ?vs, width := int (length ?vs), height := height m + 1\<rparr>"
  from Cons.prems(2) have lw: "load_words to_int (split_sp line) = Inr ?vs"
    by (intro load_line_values) simp
  from Cons.prems(1) have len: "length ?vs = n" by simp
  with Cons.prems(3) have ok: "\<not> (width m > 0 \<and> width m \<noteq> int (length ?vs))" by auto
  have step: "load_lines to_int (line # ls) m = load_lines to_int ls ?m1"
    using ok by (auto simp: lw)
  have "load_lines to_int ls ?m1
      = Inr (?m1\<lparr>tiles := tiles ?m1 @ concat (map (\<lambda>line. map (\<lambda>word. the (to_int word)) (words_of line)) ls),
                   width := (if ls = [] then width ?m1 else int n),
                   height := height ?m1 + int (length ls)\<rparr>)"
    using Cons.prems(1,2) len by (intro Cons.IH) simp_all
  then show ?case unfolding step using len by simp
qed

lemma concat_nth_rect:
  assumes "\<forall>xs \<in> set xss. length xs = n" and "r < length xss" and "c < n"
  shows "concat xss ! (r * n + c) = xss ! r ! c"
  using assms
proof (induction xss arbitrary: r)
  case Nil
  then show ?case by simp
next
  case (Cons xs xss)
  show ?case
  proof (cases r)
    case 0
    with Cons.prems show ?thesis by (simp add: nth_append)
  next
    case (Suc r')
    with Cons.prems have "concat xss ! (r' * n + c) = xss ! r' ! c"
      by (intro Cons.IH) simp_all
    moreover from Cons.prems have "length xs = n" by simp
    ultimately show ?thesis using Suc by (simp add: nth_append)
  qed
qed

lemma length_concat_rect:
  "\<forall>xs \<in> set xss. length xs = n \<Longrightarrow> length (concat xss) = length xss * n"
  by (induction xss) simp_all

lemma load_rect:
  assumes "\<forall>line \<in> set ls. length (words_of line) = n"
    and "\<forall>line \<in> set ls. \<forall>word \<in> set (words_of line). to_int word \<noteq> None"
  shows "load to_int ls =
     Inr \<lparr>tiles = concat (map (\<lambda>line. map (\<lambda>word. the (to_int word)) (words_of line)) ls),
          width = (if ls = [] then 0 else int n),
          height = int (length ls)\<rparr>"
  unfolding load_def using load_lines_rect[OF assms, of "\<lparr>tiles = [], width = 0, height = 0\<rparr>"]
  by simp

lemma rect_wf:
  assumes "\<forall>line \<in> set ls. length (words_of line) = n" and "ls \<noteq> []" and "0 < n"
  shows "wf_map \<lparr>tiles = concat (map (\<lambda>line. map (\<lambda>word. the (to_int word)) (words_of line)) ls),
                  width = int n, height = int (length ls)\<rparr>"
proof -
  have "length (concat (map (\<lambda>line. map (\<lambda>word. the (to_int word)) (words_of line)) ls))
          = length (map (\<lambda>line. map (\<lambda>word. the (to_int word)) (words_of line)) ls) * n"
    using assms(1) by (intro length_concat_rect) simp
  then have "length (concat (map (\<lambda>line. map (\<lambda>word. the (to_int word)) (words_of line)) ls))
          = length ls * n" by simp
  moreover from assms(2) have "1 \<le> length ls" by (cases ls) simp_all
  ultimately show ?thesis using assms(3) by (simp add: wf_map_def)
qed

lemma rect_tile_of:
  assumes "\<forall>line \<in> set ls. length (words_of line) = n" and "r < length ls" and "c < n"
  shows "tile_of \<lparr>tiles = concat (map (\<lambda>line. map (\<lambda>word. the (to_int word)) (words_of line)) ls),
                  width = int n, height = int (length ls)\<rparr> (int c) (int r)
           = the (to_int (words_of (ls ! r) ! c))"
proof -
  let ?rows = "map (\<lambda>line. map (\<lambda>word. the (to_int word)) (words_of line)) ls"
  have i: "nat (int r * int n + int c) = r * n + c"
  proof -
    have "int r * int n + int c = int (r * n + c)" by simp
    then show ?thesis by (simp only: nat_int)
  qed
  have "\<forall>xs \<in> set ?rows. length xs = n" using assms(1) by simp
  moreover have "r < length ?rows" using assms(2) by simp
  ultimately have "concat ?rows ! (r * n + c) = ?rows ! r ! c"
    using assms(3) by (rule concat_nth_rect)
  moreover from assms have "c < length (words_of (ls ! r))" by simp
  ultimately have "concat ?rows ! (r * n + c) = the (to_int (words_of (ls ! r) ! c))"
    using assms(2) by simp
  then show ?thesis unfolding tile_of_def Map.select_convs i .
qed

text \<open>
  Claim C9. Let every line of the text hold the same number \<open>n\<close> of words, each of which
  \<open>int\<close> converts. Then loading succeeds, the grid has one row per line (and \<open>n\<close> columns
  when there is a line), and for every row \<open>r\<close> and column \<open>c\<close> of the text \<open>get_tile\<close> at
  the centre of cell \<open>(c, r)\<close> returns the integer of word \<open>c\<close> of line \<open>r\<close>; so does
  \<open>get_tile\<close> at every point whose rounded coordinates lie in that cell.
\<close>

theorem load_round_trip:
  assumes "\<forall>line \<in> set ls. length (words_of line) = n"
    and "\<forall>line \<in> set ls. \<forall>word \<in> set (words_of line). to_int word \<noteq> None"
  shows "\<exists>m. load to_int ls = Inr m \<and> height m = int (length ls) \<and>
           (ls \<noteq> [] \<longrightarrow> width m = int n) \<and>
           (\<forall>r < length ls. \<forall>c < n. \<exists>v.
              to_int (words_of (ls ! r) ! c) = Some v \<and>
              get_tile m \<lparr>p_x = of_int (int c * 64 + 32), p_y = of_int (int r * 64 + 32)\<rparr> = Inr v \<and>
              (\<forall>p. int c * 64 \<le> py_round (p_x p) \<and> py_round (p_x p) < int c * 64 + 64 \<and>
                   int r * 64 \<le> py_round (p_y p) \<and> py_round (p_y p) < int r * 64 + 64
                   \<longrightarrow> get_tile m p = Inr v))"
proof -
  let ?m = "\<lparr>tiles = concat (map (\<lambda>line. map (\<lambda>word. the (to_int word)) (words_of line)) ls),
            width = (if ls = [] then 0 else int n), height = int (length ls)\<rparr>"
  have ld: "load to_int ls = Inr ?m" by (rule load_rect[OF assms])
  have cells: "\<exists>v. to_int (words_of (ls ! r) ! c) = Some v \<and>
              get_tile ?m \<lparr>p_x = of_int (int c * 64 + 32), p_y = of_int (int r * 64 + 32)\<rparr> = Inr v \<and>
              (\<forall>p. int c * 64 \<le> py_round (p_x p) \<and> py_round (p_x p) < int c * 64 + 64 \<and>
                   int r * 64 \<le> py_round (p_y p) \<and> py_round (p_y p) < int r * 64 + 64
                   \<longrightarrow> get_tile ?m p = Inr v)"
    if r: "r < length ls" and c: "c < n" for r c
  proof -
    from r have ne: "ls \<noteq> []" by auto
    from c have n: "0 < n" by simp
    let ?g = "\<lparr>tiles = concat (map (\<lambda>line. map (\<lambda>word. the (to_int word)) (words_of line)) ls),
              width = int n, height = int (length ls)\<rparr>"
    have m: "?m = ?g" using ne by simp
    have wf: "wf_map ?g" by (rule rect_wf[OF assms(1) ne n])
    from r have "ls ! r \<in> set ls" by simp
    moreover with assms(1) c have "words_of (ls ! r) ! c \<in> set (words_of (ls ! r))" by simp
    ultimately have "to_int (words_of (ls ! r) ! c) \<noteq> None" using assms(2) by blast
    then obtain v where v: "to_int (words_of (ls ! r) ! c) = Some v" by blast
    with rect_tile_of[OF assms(1) r c, of to_int] have t: "tile_of ?g (int c) (int r) = v" by simp
    have at: "get_tile ?g p = Inr v"
      if "int c * 64 \<le> py_round (p_x p)" "py_round (p_x p) < int c * 64 + 64"
         "int r * 64 \<le> py_round (p_y p)" "py_round (p_y p) < int r * 64 + 64" for p
    proof -
      have "cell (width ?g) (py_round (p_x p)) = int c"
        using that(1,2) c by (intro cell_inside) simp_all
      moreover have "cell (height ?g) (py_round (p_y p)) = int r"
        using that(3,4) r by (intro cell_inside) simp_all
      ultimately show ?thesis using t by (simp only: get_tile_wf[OF wf])
    qed
    have px: "py_round (p_x \<lparr>p_x = of_int (int c * 64 + 32), p_y = of_int (int r * 64 + 32)\<rparr>)
                = int c * 64 + 32"
      by (simp only: Point2d.select_convs py_round_of_int)
    have py: "py_round (p_y \<lparr>p_x = of_int (int c * 64 + 32), p_y = of_int (int r * 64 + 32)\<rparr>)
                = int r * 64 + 32"
      by (simp only: Point2d.select_convs py_round_of_int)
    have "get_tile ?g \<lparr>p_x = of_int (int c * 64 + 32), p_y = of_int (int r * 64 + 32)\<rparr> = Inr v"
      by (rule at) (unfold px py, simp_all)
    with v at show ?thesis unfolding m by blast
  qed
  have "height ?m = int (length ls)" "ls \<noteq> [] \<longrightarrow> width ?m = int n" by simp_all
  with ld cells show ?thesis by blast
qed

lemma sample_words:
  "words_of (sample_lines ! 0) = [''0'', [CHR ''5'', CHR 0x0A]]"
  "words_of (sample_lines ! 1) = [''78'', ''110'']"
  by (simp_all add: words_of_def sample_lines_def)

lemma sample_ints:
  "to_int_dec ''0'' = Some 0" "to_int_dec [CHR ''5'', CHR 0x0A] = Some 5"
  "to_int_dec ''78'' = Some 78" "to_int_dec ''110'' = Some 110"
  by (simp_all add: to_int_dec_def)

lemma sample_lines_cases:
  "line \<in> set sample_lines \<Longrightarrow> line = sample_lines ! 0 \<or> line = sample_lines ! 1"
  by (auto simp: sample_lines_def)

theorem load_round_trip_witness:
  "length sample_lines = 2 \<and>
   length (words_of (sample_lines ! 0)) = 2 \<and> length (words_of (sample_lines ! 1)) = 2 \<and>
   map to_int_dec (words_of (sample_lines ! 0)) = [Some 0, Some 5] \<and>
   map to_int_dec (words_of (sample_lines ! 1)) = [Some 78, Some 110] \<and>
   (\<exists>m. load to_int_dec sample_lines = Inr m \<and> height m = 2 \<and> width m = 2 \<and>
        get_tile m \<lparr>p_x = 96, p_y = 96\<rparr> = Inr 110 \<and>
        get_tile m \<lparr>p_x = 96, p_y = 32\<rparr> = Inr 5)"
proof -
  have rect: "\<forall>line \<in> set sample_lines. length (words_of line) = 2"
    using sample_lines_cases sample_words by fastforce
  have ints: "\<forall>line \<in> set sample_lines. \<forall>word \<in> set (words_of line). to_int_dec word \<noteq> None"
    using sample_lines_cases sample_words sample_ints by fastforce
  from load_round_trip[OF rect ints] obtain m where
    m: "load to_int_dec sample_lines = Inr m" "height m = int (length sample_lines)"
       "sample_lines \<noteq> [] \<longrightarrow> width m = int 2"
    and cells: "\<forall>r < length sample_lines. \<forall>c < 2. \<exists>v.
              to_int_dec (words_of (sample_lines ! r) ! c) = Some v \<and>
              get_tile m \<lparr>p_x = of_int (int c * 64 + 32), p_y = of_int (int r * 64 + 32)\<rparr> = Inr v"
    by blast
  have len: "length sample_lines = 2" by (simp add: sample_lines_def)
  from cells[rule_format, of 1 1] have a: "get_tile m \<lparr>p_x = 96, p_y = 96\<rparr> = Inr 110"
    by (simp add: len sample_words[unfolded One_nat_def] sample_ints)
  from cells[rule_format, of 0 1] have b: "get_tile m \<lparr>p_x = 96, p_y = 32\<rparr> = Inr 5"
    by (simp add: len sample_words[unfolded One_nat_def] sample_ints)
  from m len have "height m = 2" "width m = 2" by (auto simp: sample_lines_def)
  moreover have "map to_int_dec (words_of (sample_lines ! 0)) = [Some 0, Some 5]"
    "map to_int_dec (words_of (sample_lines ! 1)) = [Some 78, Some 110]"
    by (simp_all add: sample_words[unfolded One_nat_def] sample_ints)
  moreover have "length (words_of (sample_lines ! 0)) = 2" "length (words_of (sample_lines ! 1)) = 2"
    by (simp_all add: sample_words[unfolded One_nat_def])
  ultimately show ?thesis using len m(1) a b by blast
qed

section \<open>Clamping on a loaded grid\<close>








section \<open>The resolver on a well-formed grid\<close>

lemma or_else_Inr: "or_else (Inr a) (Inr b) = Inr (a \<or> b)"
  by (simp add: or_else_def)

lemma test_box_wf:
  assumes "wf_map m"
  shows "\<exists>b. test_box m p size0 = Inr b"
  by (simp add: test_box_def is_solid_wf[OF assms] or_else_Inr Let_def)

lemma move_step_wf:
  assumes "wf_map m"
  shows "\<exists>st'. move_step m size0 fraction st = Inr st'"
proof -
  obtain result p v where st: "st = (result, p, v)" by (cases st)
  from test_box_wf[OF assms] obtain b where
    b: "test_box m (point_add p (point_mul v fraction)) size0 = Inr b" by blast
  from test_box_wf[OF assms] obtain hit_y where
    hy: "test_box m \<lparr>p_x = p_x p, p_y = p_y p + p_y v * fraction\<rparr> size0 = Inr hit_y" by blast
  from test_box_wf[OF assms] obtain hit_x where
    hx: "test_box m \<lparr>p_x = p_x p + p_x v * fraction, p_y = p_y p\<rparr> size0 = Inr hit_x" by blast
  show ?thesis
  proof (cases b)
    case True
    with b have "test_box m (point_add p (point_mul v fraction)) size0 = Inr True" by simp
    from move_step_blocked[OF this hy hx] show ?thesis unfolding st by blast
  next
    case False
    with b have "test_box m (point_add p (point_mul v fraction)) size0 = Inr False" by simp
    from move_step_free[OF this] show ?thesis unfolding st by blast
  qed
qed

lemma move_loop_wf:
  assumes "wf_map m"
  shows "\<exists>st'. move_loop m size0 fraction ks st = Inr st'"
proof (induction ks arbitrary: st)
  case Nil
  show ?case by (rule exI[of _ st]) simp
next
  case (Cons k ks)
  from move_step_wf[OF assms] obtain st1 where s1: "move_step m size0 fraction st = Inr st1"
    by blast
  from Cons.IH[of st1] obtain st' where "move_loop m size0 fraction ks st1 = Inr st'"
    by blast
  with s1 have "move_loop m size0 fraction (k # ks) st = Inr st'" by simp
  then show ?case ..
qed

lemma move_box_wf:
  assumes "wf_map m"
  shows "\<exists>result p' v'. move_box m p v size0 = Inr (result, p', v')"
proof -
  from move_loop_wf[OF assms] obtain st' where
    "move_box m p v size0 = Inr st'" unfolding move_box_loop by blast
  then show ?thesis by (cases st') auto
qed

section \<open>No tunnelling through a solid row\<close>

lemma cell_mono: "a \<le> b \<Longrightarrow> cell n a \<le> cell n b"
  using zdiv_mono1[of a b 64] unfolding cell_def by linarith

lemma cell_succ: "cell n (a + 1) \<le> cell n a + 1"
proof -
  have "(a + 1) div 64 \<le> (a + 64) div 64" by (rule zdiv_mono1) simp_all
  then have "(a + 1) div 64 \<le> a div 64 + 1" by simp
  then show ?thesis unfolding cell_def by linarith
qed

lemma py_round_near:
  assumes "\<bar>d\<bar> < 1"
  shows "py_round (b + d) \<le> py_round b + 1" and "py_round b \<le> py_round (b + d) + 1"
proof -
  from assms py_round_bounds(2)[of "b + d"] py_round_bounds(1)[of b]
  have "(of_int (py_round (b + d)) :: real) < of_int (py_round b + 2)" by simp
  then have "py_round (b + d) < py_round b + 2" by (simp only: of_int_less_iff)
  then show "py_round (b + d) \<le> py_round b + 1" by simp
  from assms py_round_bounds(1)[of "b + d"] py_round_bounds(2)[of b]
  have "(of_int (py_round b) :: real) < of_int (py_round (b + d) + 2)" by simp
  then have "py_round b < py_round (b + d) + 2" by (simp only: of_int_less_iff)
  then show "py_round b \<le> py_round (b + d) + 1" by simp
qed

lemma row_near:
  assumes "\<bar>d\<bar> < 1"
  shows "row_at m (b + d) \<le> row_at m b + 1" and "row_at m b \<le> row_at m (b + d) + 1"
proof -
  from cell_mono[OF py_round_near(1)[OF assms, of b], of "height m"]
       cell_succ[of "height m" "py_round b"]
  show "row_at m (b + d) \<le> row_at m b + 1" unfolding row_at_def by linarith
  from cell_mono[OF py_round_near(2)[OF assms, of b], of "height m"]
       cell_succ[of "height m" "py_round (b + d)"]
  show "row_at m b \<le> row_at m (b + d) + 1" unfolding row_at_def by linarith
qed

lemma single_solid_rowD:
  assumes "single_solid_row m r0"
  shows "wf_map m" and "0 \<le> r0" and "r0 < height m"
    and "\<And>c r. 0 \<le> c \<Longrightarrow> c < width m \<Longrightarrow> 0 \<le> r \<Longrightarrow> r < height m
           \<Longrightarrow> (tile_of m c r \<notin> {AIR, START, FINISH}) = (r = r0)"
  using assms by (auto simp: single_solid_row_def)

lemma solid_row_is_solid:
  assumes "single_solid_row m r0"
  shows "is_solid m p = Inr (row_at m (p_y p) = r0)"
proof -
  note d = single_solid_rowD[OF assms]
  from d(1) have wh: "1 \<le> width m" "1 \<le> height m" by (simp_all add: wf_map_def)
  from cell_range[OF wh(1), of "py_round (p_x p)"] cell_range[OF wh(2), of "py_round (p_y p)"]
  have "(tile_of m (cell (width m) (py_round (p_x p))) (cell (height m) (py_round (p_y p)))
           \<notin> {AIR, START, FINISH}) = (cell (height m) (py_round (p_y p)) = r0)"
    by (intro d(4)) simp_all
  then show ?thesis by (simp only: is_solid_wf[OF d(1)] row_at_def)
qed

lemma solid_row_test_box:
  assumes "single_solid_row m r0"
  shows "test_box m p size0
           = Inr (row_at m (p_y p - p_y size0 * 0.5) = r0 \<or> row_at m (p_y p + p_y size0 * 0.5) = r0)"
  by (simp add: test_box_def solid_row_is_solid[OF assms] or_else_Inr point_mul_def Let_def)

lemma solid_row_pass:
  assumes ssr: "single_solid_row m r0"
    and off: "off = p_y size0 * 0.5 \<or> off = - (p_y size0 * 0.5)"
    and small: "\<bar>p_y v * fraction\<bar> < 1"
    and run: "move_step m size0 fraction (result, p, v) = Inr (result', p', v')"
  shows "\<bar>p_y v' * fraction\<bar> < 1"
    and "p_y p' = p_y p \<or>
         (p_y p' = p_y p + p_y v * fraction \<and> row_at m (p_y p + p_y v * fraction + off) \<noteq> r0)"
proof -
  define h where "h = p_y size0 * 0.5"
  have tb: "test_box m q size0 = Inr (row_at m (p_y q - h) = r0 \<or> row_at m (p_y q + h) = r0)" for q
    unfolding h_def by (rule solid_row_test_box[OF ssr])
  from off have off': "off = h \<or> off = - h" unfolding h_def .
  have clear: "row_at m (p_y q + off) \<noteq> r0" if "test_box m q size0 = Inr False" for q
  proof -
    from that[unfolded tb] have "row_at m (p_y q - h) \<noteq> r0" "row_at m (p_y q + h) \<noteq> r0"
      by simp_all
    moreover have "p_y q + - h = p_y q - h" by simp
    ultimately show ?thesis using off' by metis
  qed
  have cy: "p_y (point_add p (point_mul v fraction)) = p_y p + p_y v * fraction"
    by (simp add: point_add_def point_mul_def)
  from move_step_cases[OF run]
  have "\<bar>p_y v' * fraction\<bar> < 1 \<and>
        (p_y p' = p_y p \<or>
         (p_y p' = p_y p + p_y v * fraction \<and> row_at m (p_y p + p_y v * fraction + off) \<noteq> r0))"
  proof (elim disjE exE conjE)
    assume free: "test_box m (point_add p (point_mul v fraction)) size0 = Inr False"
      and st': "(result', p', v') = (result, point_add p (point_mul v fraction), v)"
    from clear[OF free] have "row_at m (p_y p + p_y v * fraction + off) \<noteq> r0"
      unfolding cy .
    with st' small cy show ?thesis by simp
  next
    fix hit_y hit_x
    assume blocked: "test_box m (point_add p (point_mul v fraction)) size0 = Inr True"
      and hy: "test_box m \<lparr>p_x = p_x p, p_y = p_y p + p_y v * fraction\<rparr> size0 = Inr hit_y"
      and st': "(result', p', v') = resolved hit_y hit_x fraction (result, p, v)"
    from blocked hy have "hit_y" unfolding tb cy by simp
    with st' show ?thesis by (simp add: resolved_def)
  qed
  then show "\<bar>p_y v' * fraction\<bar> < 1"
    and "p_y p' = p_y p \<or>
         (p_y p' = p_y p + p_y v * fraction \<and> row_at m (p_y p + p_y v * fraction + off) \<noteq> r0)"
    by simp_all
qed

lemma move_step_above_row:
  assumes "single_solid_row m r0"
    and "off = p_y size0 * 0.5 \<or> off = - (p_y size0 * 0.5)"
    and inv: "above_row m r0 fraction off st"
    and run: "move_step m size0 fraction st = Inr st'"
  shows "above_row m r0 fraction off st'"
proof -
  obtain result p v where st: "st = (result, p, v)" by (cases st)
  obtain result' p' v' where st': "st' = (result', p', v')" by (cases st')
  from inv have small: "\<bar>p_y v * fraction\<bar> < 1" and row: "row_at m (p_y p + off) < r0"
    by (simp_all add: above_row_def st)
  note pass = solid_row_pass[OF assms(1,2) small run[unfolded st st']]
  have eq: "p_y p + p_y v * fraction + off = p_y p + off + p_y v * fraction" by simp
  have "row_at m (p_y p + p_y v * fraction + off) \<le> row_at m (p_y p + off) + 1"
    unfolding eq by (rule row_near(1)[OF small])
  with pass(2) row have "row_at m (p_y p' + off) < r0" by auto
  with pass(1) show ?thesis by (simp add: above_row_def st')
qed

lemma move_step_below_row:
  assumes "single_solid_row m r0"
    and "off = p_y size0 * 0.5 \<or> off = - (p_y size0 * 0.5)"
    and inv: "below_row m r0 fraction off st"
    and run: "move_step m size0 fraction st = Inr st'"
  shows "below_row m r0 fraction off st'"
proof -
  obtain result p v where st: "st = (result, p, v)" by (cases st)
  obtain result' p' v' where st': "st' = (result', p', v')" by (cases st')
  from inv have small: "\<bar>p_y v * fraction\<bar> < 1" and row: "r0 < row_at m (p_y p + off)"
    by (simp_all add: below_row_def st)
  note pass = solid_row_pass[OF assms(1,2) small run[unfolded st st']]
  have eq: "p_y p + p_y v * fraction + off = p_y p + off + p_y v * fraction" by simp
  have "row_at m (p_y p + off) \<le> row_at m (p_y p + p_y v * fraction + off) + 1"
    unfolding eq by (rule row_near(2)[OF small])
  with pass(2) row have "r0 < row_at m (p_y p' + off)" by auto
  with pass(1) show ?thesis by (simp add: below_row_def st')
qed

lemma abs_vel_y: "\<bar>p_y v\<bar> \<le> point_len v"
proof -
  have "sqrt (p_y v * p_y v) \<le> sqrt (p_x v * p_x v + p_y v * p_y v)"
    by (rule real_sqrt_le_mono) simp
  then show ?thesis by (simp add: point_len_def)
qed

lemma first_fraction_small:
  "\<bar>p_y v * (1 / of_int (py_int (point_len v) + 1))\<bar> < 1"
proof -
  have fl: "py_int (point_len v) = \<lfloor>point_len v\<rfloor>"
    by (simp add: py_int_nonneg point_len_nonneg)
  have "point_len v < of_int \<lfloor>point_len v\<rfloor> + 1" by linarith
  with abs_vel_y[of v] have "\<bar>p_y v\<bar> < of_int \<lfloor>point_len v\<rfloor> + 1" by linarith
  then have lt: "\<bar>p_y v\<bar> < of_int (py_int (point_len v) + 1)"
    unfolding fl by simp
  from py_int_len_nonneg[of v] have pos: "0 < (of_int (py_int (point_len v) + 1) :: real)"
    by simp
  have "\<bar>p_y v * (1 / of_int (py_int (point_len v) + 1))\<bar>
          = \<bar>p_y v\<bar> / of_int (py_int (point_len v) + 1)"
    using pos by (simp add: abs_mult)
  also from lt pos have "\<dots> < 1" by (simp only: divide_less_eq_1_pos)
  finally show ?thesis .
qed

lemma move_loop_above_row:
  assumes "single_solid_row m r0"
    and "off = p_y size0 * 0.5 \<or> off = - (p_y size0 * 0.5)"
    and run: "move_loop m size0 (1 / of_int (py_int (point_len v) + 1)) ks ({}, p, v)
                = Inr (result, p', v')"
    and row: "row_at m (p_y p + off) < r0"
  shows "row_at m (p_y p' + off) < r0"
proof -
  let ?f = "1 / of_int (py_int (point_len v) + 1)"
  from row have "above_row m r0 ?f off ({}, p, v)"
    by (simp only: above_row_def prod.case first_fraction_small)
  with run have "above_row m r0 ?f off (result, p', v')"
    by (rule move_loop_induct) (rule move_step_above_row[OF assms(1,2)])
  then show ?thesis by (simp add: above_row_def)
qed

lemma move_loop_below_row:
  assumes "single_solid_row m r0"
    and "off = p_y size0 * 0.5 \<or> off = - (p_y size0 * 0.5)"
    and run: "move_loop m size0 (1 / of_int (py_int (point_len v) + 1)) ks ({}, p, v)
                = Inr (result, p', v')"
    and row: "r0 < row_at m (p_y p + off)"
  shows "r0 < row_at m (p_y p' + off)"
proof -
  let ?f = "1 / of_int (py_int (point_len v) + 1)"
  from row have "below_row m r0 ?f off ({}, p, v)"
    by (simp only: below_row_def prod.case first_fraction_small)
  with run have "below_row m r0 ?f off (result, p', v')"
    by (rule move_loop_induct) (rule move_step_below_row[OF assms(1,2)])
  then show ?thesis by (simp add: below_row_def)
qed

lemma move_loop_keeps_side:
  assumes "single_solid_row m r0"
    and run: "move_loop m size0 (1 / of_int (py_int (point_len v) + 1)) ks ({}, p, v)
                = Inr (result, p', v')"
  shows "keeps_side m r0 size0 p p'"
proof -
  define h where "h = p_y size0 * 0.5"
  have lo: "h = p_y size0 * 0.5 \<or> h = - (p_y size0 * 0.5)"
    and hi: "- h = p_y size0 * 0.5 \<or> - h = - (p_y size0 * 0.5)"
    by (simp_all add: h_def)
  have m: "b + - h = b - h" for b by simp
  have "row_at m (p_y p - h) < r0 \<longrightarrow> row_at m (p_y p' - h) < r0"
    using move_loop_above_row[OF assms(1) hi run] unfolding m by blast
  moreover have "row_at m (p_y p + h) < r0 \<longrightarrow> row_at m (p_y p' + h) < r0"
    using move_loop_above_row[OF assms(1) lo run] by blast
  moreover have "r0 < row_at m (p_y p - h) \<longrightarrow> r0 < row_at m (p_y p' - h)"
    using move_loop_below_row[OF assms(1) hi run] unfolding m by blast
  moreover have "r0 < row_at m (p_y p + h) \<longrightarrow> r0 < row_at m (p_y p' + h)"
    using move_loop_below_row[OF assms(1) lo run] by blast
  ultimately show ?thesis unfolding keeps_side_def h_def by blast
qed

text \<open>
  Claim C4. Let row \<open>r0\<close> of the grid be solid in every column and no other tile be solid.
  Then \<open>move_box\<close> returns, and a sampled corner of the box (the corners lie half the
  box's height above and below its centre) that is answered from a row before \<open>r0\<close> when
  the call starts is answered from a row before \<open>r0\<close> when it ends; likewise for a row
  after \<open>r0\<close>. The same holds for the position after any number of passes of the loop.
  So the corners neither enter the solid row nor get past it, from either side. This
  holds for every velocity, in particular for those of magnitude at most 64: one pass
  moves the box by less than one unit.
\<close>

theorem move_box_no_tunneling:
  assumes "single_solid_row m r0"
  shows "(\<exists>result p' v'. move_box m p v size0 = Inr (result, p', v') \<and>
            keeps_side m r0 size0 p p') \<and>
         (\<forall>ks. \<exists>result p' v'.
            move_loop m size0 (1 / of_int (py_int (point_len v) + 1)) ks ({}, p, v)
              = Inr (result, p', v') \<and>
            keeps_side m r0 size0 p p')"
proof -
  have passes: "\<exists>result p' v'.
            move_loop m size0 (1 / of_int (py_int (point_len v) + 1)) ks ({}, p, v)
              = Inr (result, p', v') \<and>
            keeps_side m r0 size0 p p'" for ks
  proof -
    from move_loop_wf[OF single_solid_rowD(1)[OF assms]] obtain st' where
      "move_loop m size0 (1 / of_int (py_int (point_len v) + 1)) ks ({}, p, v) = Inr st'"
      by blast
    then obtain result p' v' where
      run: "move_loop m size0 (1 / of_int (py_int (point_len v) + 1)) ks ({}, p, v)
              = Inr (result, p', v')"
      by (cases st') auto
    from run move_loop_keeps_side[OF assms run] show ?thesis by blast
  qed
  from passes[of "py_range 0 (py_int (point_len v) + 1)"]
  have "\<exists>result p' v'. move_box m p v size0 = Inr (result, p', v') \<and>
            keeps_side m r0 size0 p p'"
    unfolding move_box_loop .
  with passes show ?thesis by blast
qed

lemma row_map_single: "single_solid_row row_map 1"
  by (simp add: single_solid_row_def wf_map_def tile_of_def row_map_def upto_rec1
      AIR_def START_def FINISH_def)

lemma row_map_rows: "row_at row_map 63 = 0" "row_at row_map (- 1) = 0"
  using py_round_of_int[of "- 1"] py_round_of_int[of 63]
  by (simp_all add: row_at_def cell_def row_map_def)

theorem move_box_no_tunneling_witness:
  "tiles row_map = [0, 5, 0] \<and> width row_map = 1 \<and> height row_map = 3 \<and>
   row_at row_map (31 - 32) < 1 \<and> row_at row_map (31 + 32) < 1 \<and>
   (\<exists>result p' v'.
      move_box row_map \<lparr>p_x = 32, p_y = 31\<rparr> \<lparr>p_x = 0, p_y = 64\<rparr> \<lparr>p_x = 64, p_y = 64\<rparr>
        = Inr (result, p', v') \<and>
      row_at row_map (p_y p' - 32) < 1 \<and> row_at row_map (p_y p' + 32) < 1)"
proof -
  have rows: "row_at row_map (31 - 32) < 1" "row_at row_map (31 + 32) < 1"
    by (simp_all add: row_map_rows)
  from move_box_no_tunneling[OF row_map_single, of "\<lparr>p_x = 32, p_y = 31\<rparr>"
      "\<lparr>p_x = 0, p_y = 64\<rparr>" "\<lparr>p_x = 64, p_y = 64\<rparr>"]
  obtain result p' v' where
    run: "move_box row_map \<lparr>p_x = 32, p_y = 31\<rparr> \<lparr>p_x = 0, p_y = 64\<rparr> \<lparr>p_x = 64, p_y = 64\<rparr>
        = Inr (result, p', v')"
    and ks: "keeps_side row_map 1 \<lparr>p_x = 64, p_y = 64\<rparr> \<lparr>p_x = 32, p_y = 31\<rparr> p'"
    by blast
  from ks rows have "row_at row_map (p_y p' - 32) < 1" "row_at row_map (p_y p' + 32) < 1"
    by (simp_all add: keeps_side_def)
  moreover have "tiles row_map = [0, 5, 0]" "width row_map = 1" "height row_map = 3"
    by (simp_all add: row_map_def)
  ultimately show ?thesis using run rows by blast
qed

end
